theory Spec2Isabelle
  imports Main
begin

section \<open>Strings\<close>

text \<open>
  A Go string is modelled as the list of the runes that \<^verbatim>\<open>regexp\<close> and
  \<^verbatim>\<open>strings.TrimSpace\<close> step through when they decode it: one number per Unicode
  code point of its UTF-8 text.  (A byte that belongs to no valid encoding is one step
  for both of them, is no whitespace and no delimiter, and can be taken as a number above
  \<open>0x10FFFF\<close>.)  Offsets count runes; \<^verbatim>\<open>parse.go\<close> uses the offsets the regexp reports
  only to slice the spell and to compare them with each other and with the length of
  the spell, and all of them lie on rune boundaries.  \<open>runes\<close> turns a literal into that
  representation.
\<close>

type_synonym rune = nat
type_synonym gostring = "rune list"

definition runes :: "string \<Rightarrow> gostring" where
  "runes cs = map of_char cs"

abbreviation (input) rune_lt :: rune where "rune_lt \<equiv> 0x3C"
abbreviation (input) rune_gt :: rune where "rune_gt \<equiv> 0x3E"
abbreviation (input) rune_eq :: rune where "rune_eq \<equiv> 0x3D"
abbreviation (input) rune_semicolon :: rune where "rune_semicolon \<equiv> 0x3B"
abbreviation (input) rune_quote :: rune where "rune_quote \<equiv> 0x27"

text \<open>The class \<^verbatim>\<open>\s\<close> of Go's regexp syntax: tab, newline, form feed, carriage return, space.\<close>

definition perl_space :: "rune \<Rightarrow> bool" where
  "perl_space c \<longleftrightarrow> c = 0x09 \<or> c = 0x0A \<or> c = 0x0C \<or> c = 0x0D \<or> c = 0x20"

text \<open>\<^verbatim>\<open>unicode.IsSpace\<close>, which \<^verbatim>\<open>strings.TrimSpace\<close> trims with: the Unicode White_Space property.\<close>

definition IsSpace :: "rune \<Rightarrow> bool" where
  "IsSpace c \<longleftrightarrow>
     (0x09 \<le> c \<and> c \<le> 0x0D) \<or> c = 0x20 \<or> c = 0x85 \<or> c = 0xA0 \<or> c = 0x1680 \<or>
     (0x2000 \<le> c \<and> c \<le> 0x200A) \<or> c = 0x2028 \<or> c = 0x2029 \<or> c = 0x202F \<or>
     c = 0x205F \<or> c = 0x3000"

definition TrimSpace :: "gostring \<Rightarrow> gostring" where
  "TrimSpace s = rev (dropWhile IsSpace (rev (dropWhile IsSpace s)))"

text \<open>
  \<^verbatim>\<open>s[a:b]\<close>.  The source slices the spell only between offsets that the regexp has
  reported, in their order, and up to its length, so the panic of a slice out of range
  has no part in the model.
\<close>

definition slice :: "gostring \<Rightarrow> nat \<Rightarrow> nat \<Rightarrow> gostring" where
  "slice s a b = take (b - a) (drop a s)"

text \<open>\<^verbatim>\<open>strings.SplitN(s, sep, 2)\<close> for a separator of one rune: cut at the first separator.\<close>

definition SplitN_2 :: "gostring \<Rightarrow> rune \<Rightarrow> gostring list" where
  "SplitN_2 s sep =
     (if sep \<in> set s then [takeWhile (\<lambda>c. c \<noteq> sep) s, tl (dropWhile (\<lambda>c. c \<noteq> sep) s)]
      else [s])"

text \<open>
  \<^verbatim>\<open>strings.Split(s, sep)\<close> for a separator of one rune: cut at every separator.  The
  result is never empty, so the second case below is never taken.
\<close>

fun Split :: "gostring \<Rightarrow> rune \<Rightarrow> gostring list" where
  "Split [] sep = [[]]"
| "Split (c # cs) sep =
     (if c = sep then [] # Split cs sep
      else (case Split cs sep of
              piece # pieces \<Rightarrow> (c # piece) # pieces
            | [] \<Rightarrow> [[c]]))"

text \<open>\<^verbatim>\<open>strings.Join(elems, sep)\<close>.\<close>

fun Join :: "gostring list \<Rightarrow> gostring \<Rightarrow> gostring" where
  "Join [] sep = []"
| "Join [e] sep = e"
| "Join (e # es) sep = e @ sep @ Join es sep"

section \<open>The marker pattern\<close>

text \<open>
  \<^verbatim>\<open>paramRegex = regexp.MustCompile(`<([^\s][^<>]*[^\s])>`)\<close>.
  The package \<^verbatim>\<open>regexp\<close> is not part of the repository; its matching is written out here
  for this one pattern.  Among the matches that begin at one offset, Go's regexp returns
  the one a backtracking matcher finds first.  \<open>match_rest\<close> is that matcher for the part
  \<^verbatim>\<open>[^<>]*[^\s]>\<close>: the greedy star takes the next rune when it may and the rest then
  matches; otherwise the star stops, the rune has to be in \<^verbatim>\<open>[^\s]\<close> and \<^verbatim>\<open>>\<close> has to
  follow.  A negated class matches every other rune, \<^verbatim>\<open><\<close>, \<^verbatim>\<open>>\<close> and the newline among
  them.  The result is the number of runes matched.
\<close>

fun match_rest :: "gostring \<Rightarrow> nat option" where
  "match_rest [] = None"
| "match_rest (c # cs) =
     (case (if c \<noteq> rune_lt \<and> c \<noteq> rune_gt then match_rest cs else None) of
        Some n \<Rightarrow> Some (Suc n)
      | None \<Rightarrow>
          (if \<not> perl_space c \<and> (case cs of [] \<Rightarrow> False | d # _ \<Rightarrow> d = rune_gt)
           then Some 2 else None))"

text \<open>The whole pattern, anchored at the start of \<open>s\<close>: the length of the match, if any.\<close>

fun match_prefix :: "gostring \<Rightarrow> nat option" where
  "match_prefix (c0 # c1 # cs) =
     (if c0 = rune_lt \<and> \<not> perl_space c1
      then (case match_rest cs of Some n \<Rightarrow> Some (n + 2) | None \<Rightarrow> None)
      else None)"
| "match_prefix _ = None"

text \<open>
  One entry of \<^verbatim>\<open>FindAllStringSubmatchIndex\<close>: \<^verbatim>\<open>match[0]\<close>, \<^verbatim>\<open>match[1]\<close> (the whole match)
  and \<^verbatim>\<open>match[2]\<close>, \<^verbatim>\<open>match[3]\<close> (the group).
\<close>

type_synonym submatch = "nat \<times> nat \<times> nat \<times> nat"

text \<open>
  \<^verbatim>\<open>FindAllStringSubmatchIndex(spell, -1)\<close>: the successive non-overlapping matches,
  each the leftmost one in what is left; \<open>s\<close> is the spell from offset \<open>pos\<close> on, and after
  a match the search goes on behind it.
\<close>

function find_all :: "nat \<Rightarrow> gostring \<Rightarrow> submatch list" where
  "find_all pos [] = []"
| "find_all pos (c # cs) =
     (case match_prefix (c # cs) of
        Some n \<Rightarrow> (pos, pos + n, pos + 1, pos + n - 1) # find_all (pos + n) (drop n (c # cs))
      | None \<Rightarrow> find_all (pos + 1) cs)"
  by pat_completeness auto
termination
  by (relation "measure (\<lambda>(pos, s). length s)")
    (auto elim!: match_prefix.elims split: if_splits option.splits)

definition FindAllStringSubmatchIndex :: "gostring \<Rightarrow> submatch list" where
  "FindAllStringSubmatchIndex spell = find_all 0 spell"

section \<open>The data model of parse.go\<close>

record Param =
  Name :: gostring
  DefaultValues :: "gostring list"

record SpellSegments =
  Segments :: "gostring list"
  ParamIndices :: "int list"
  Params :: "Param list"

text \<open>The two errors the file makes with \<^verbatim>\<open>fmt.Errorf\<close>, and their texts.\<close>

datatype error = DuplicateDefault gostring | MissingValue gostring

fun Error :: "error \<Rightarrow> gostring" where
  "Error (MissingValue paramName) =
     runes ''no value provided for parameter '' @ [rune_quote] @ paramName @ [rune_quote]"
| "Error (DuplicateDefault name) =
     runes ''parameter '' @ [rune_quote] @ name @ [rune_quote] @
     runes '' appears multiple times with default values - defaults only allowed on first occurrence''"

section \<open>ParseSpell\<close>

definition extractParamNameAndDefaults :: "gostring \<Rightarrow> nat \<Rightarrow> nat \<Rightarrow> gostring \<times> gostring list" where
  "extractParamNameAndDefaults spell paramStart paramEnd =
     (let paramText = TrimSpace (slice spell paramStart paramEnd);
          parts = SplitN_2 paramText rune_eq;
          name = TrimSpace (hd parts);
          defaultValues = (if length parts > 1 then Split (parts ! 1) rune_semicolon else [])
      in (name, defaultValues))"

text \<open>The variables of the loop over the matches.\<close>

record parse_state =
  segments :: "gostring list"
  paramIndices :: "int list"
  paramMap :: "gostring \<rightharpoonup> Param"
  paramOrder :: "gostring list"
  lastEnd :: nat

text \<open>
  One round of the loop: the text before the match, the check of the name against
  \<open>paramMap\<close> with its early return, the segment and the slot index of the name, and
  \<open>lastEnd\<close>.  The offsets are naturals here, so the test
  \<^verbatim>\<open>paramStart >= 0 && paramEnd >= 0\<close> always passes, as it does in the source: the
  group is not optional and the regexp reports no \<^verbatim>\<open>-1\<close> for it.
\<close>

definition loop_body :: "gostring \<Rightarrow> parse_state \<Rightarrow> submatch \<Rightarrow> error + parse_state" where
  "loop_body spell st m =
     (case m of (start, end, paramStart, paramEnd) \<Rightarrow>
        let st1 = (if start > lastEnd st
                   then st\<lparr>segments := segments st @ [slice spell (lastEnd st) start]\<rparr>
                   else st)
        in
          if 0 \<le> paramStart \<and> 0 \<le> paramEnd then
            (case extractParamNameAndDefaults spell paramStart paramEnd of
               (name, defaultValues) \<Rightarrow>
                 (case (if paramMap st1 name \<noteq> None
                        then (if length defaultValues > 1 then Inl (DuplicateDefault name)
                              else Inr st1)
                        else Inr (st1\<lparr>paramMap := (paramMap st1)
                                           (name \<mapsto> \<lparr>Name = name, DefaultValues = defaultValues\<rparr>),
                                        paramOrder := paramOrder st1 @ [name]\<rparr>)) of
                    Inl err \<Rightarrow> Inl err
                  | Inr st2 \<Rightarrow>
                      let st3 = st2\<lparr>segments := segments st2 @ [name]\<rparr>;
                          st4 = st3\<lparr>paramIndices :=
                                      paramIndices st3 @ [int (length (segments st3)) - 1]\<rparr>
                      in Inr (st4\<lparr>lastEnd := end\<rparr>)))
          else Inr (st1\<lparr>lastEnd := end\<rparr>))"

fun parse_loop :: "gostring \<Rightarrow> submatch list \<Rightarrow> parse_state \<Rightarrow> error + parse_state" where
  "parse_loop spell [] st = Inr st"
| "parse_loop spell (m # ms) st =
     (case loop_body spell st m of
        Inl err \<Rightarrow> Inl err
      | Inr st' \<Rightarrow> parse_loop spell ms st')"

definition ParseSpell :: "gostring \<Rightarrow> error + SpellSegments" where
  "ParseSpell spell =
     (let matches = FindAllStringSubmatchIndex spell in
      if length matches = 0 then
        Inr \<lparr>Segments = [spell], ParamIndices = [], Params = []\<rparr>
      else
        (case parse_loop spell matches
                \<lparr>segments = [], paramIndices = [], paramMap = Map.empty, paramOrder = [],
                 lastEnd = 0\<rparr> of
           Inl err \<Rightarrow> Inl err
         | Inr st \<Rightarrow>
             Inr \<lparr>Segments = (if lastEnd st < length spell
                              then segments st @ [drop (lastEnd st) spell]
                              else segments st),
                  ParamIndices = paramIndices st,
                  Params = map (\<lambda>name. case paramMap st name of
                                          Some p \<Rightarrow> p
                                        | None \<Rightarrow> \<lparr>Name = [], DefaultValues = []\<rparr>)
                               (paramOrder st)\<rparr>))"

section \<open>Reconstruct\<close>

text \<open>What a call does: it panics (an index out of range) or returns its results.\<close>

datatype 'a outcome = Panics | Returns 'a

text \<open>
  The loop over \<^verbatim>\<open>ss.ParamIndices\<close> and the final return; \<open>result\<close> is the local copy of
  the segments.
\<close>

fun Reconstruct_loop ::
  "(gostring \<rightharpoonup> gostring) \<Rightarrow> int list \<Rightarrow> gostring list \<Rightarrow> (gostring \<times> error option) outcome" where
  "Reconstruct_loop paramValues [] result = Returns (Join result [], None)"
| "Reconstruct_loop paramValues (idx # idxs) result =
     (if idx < 0 \<or> int (length result) \<le> idx then Panics
      else
        let paramName = result ! nat idx in
        (case paramValues paramName of
           Some v \<Rightarrow> Reconstruct_loop paramValues idxs (result[nat idx := v])
         | None \<Rightarrow> Returns ([], Some (MissingValue paramName))))"

definition Reconstruct ::
  "SpellSegments \<Rightarrow> (gostring \<rightharpoonup> gostring) \<Rightarrow> (gostring \<times> error option) outcome" where
  "Reconstruct ss paramValues = Reconstruct_loop paramValues (ParamIndices ss) (Segments ss)"

section \<open>Reconstruct on a store\<close>

text \<open>
  To say what a call changes, the arrays of strings live in a store: an address is an
  index into the list of the arrays allocated so far, \<^verbatim>\<open>make\<close> appends a new array,
  and a slice of strings is the address of its array.  The struct the receiver points to
  holds such an address in \<^verbatim>\<open>Segments\<close>; the function has no assignment to an integer,
  to a \<^verbatim>\<open>Param\<close> or to a field of the struct, so the other two fields are kept as
  values, and the struct is handed back as the call leaves it.
\<close>

type_synonym store = "gostring list list"

record SpellSegments_stored =
  Segments_addr :: nat
  ParamIndices_stored :: "int list"
  Params_stored :: "Param list"

definition load :: "store \<Rightarrow> SpellSegments_stored \<Rightarrow> SpellSegments" where
  "load mem ss =
     \<lparr>Segments = mem ! Segments_addr ss, ParamIndices = ParamIndices_stored ss,
      Params = Params_stored ss\<rparr>"

text \<open>\<^verbatim>\<open>result := make([]string, len(src)); copy(result, src)\<close>: the new store and \<open>result\<close>.\<close>

definition make_copy :: "store \<Rightarrow> nat \<Rightarrow> store \<times> nat" where
  "make_copy mem src = (mem @ [mem ! src], length mem)"

fun Reconstruct_loop_stored ::
  "(gostring \<rightharpoonup> gostring) \<Rightarrow> int list \<Rightarrow> nat \<Rightarrow> store \<Rightarrow>
     store \<times> (gostring \<times> error option) outcome" where
  "Reconstruct_loop_stored paramValues [] result mem =
     (mem, Returns (Join (mem ! result) [], None))"
| "Reconstruct_loop_stored paramValues (idx # idxs) result mem =
     (if idx < 0 \<or> int (length (mem ! result)) \<le> idx then (mem, Panics)
      else
        let paramName = mem ! result ! nat idx in
        (case paramValues paramName of
           Some v \<Rightarrow>
             Reconstruct_loop_stored paramValues idxs result
               (mem[result := (mem ! result)[nat idx := v]])
         | None \<Rightarrow> (mem, Returns ([], Some (MissingValue paramName)))))"

definition Reconstruct_stored ::
  "store \<Rightarrow> SpellSegments_stored \<Rightarrow> (gostring \<rightharpoonup> gostring) \<Rightarrow>
     store \<times> SpellSegments_stored \<times> (gostring \<times> error option) outcome" where
  "Reconstruct_stored mem ss paramValues =
     (case make_copy mem (Segments_addr ss) of
        (mem1, result) \<Rightarrow>
          (case Reconstruct_loop_stored paramValues (ParamIndices_stored ss) result mem1 of
             (mem2, out) \<Rightarrow> (mem2, ss, out)))"

text \<open>The outcomes of \<open>n\<close> calls, one after the other, each in the store the one before left.\<close>

fun Reconstruct_repeatedly ::
  "nat \<Rightarrow> store \<Rightarrow> SpellSegments_stored \<Rightarrow> (gostring \<rightharpoonup> gostring) \<Rightarrow>
     (gostring \<times> error option) outcome list" where
  "Reconstruct_repeatedly 0 mem ss paramValues = []"
| "Reconstruct_repeatedly (Suc n) mem ss paramValues =
     (case Reconstruct_stored mem ss paramValues of
        (mem', ss', out) \<Rightarrow> out # Reconstruct_repeatedly n mem' ss' paramValues)"

section \<open>Notions the properties are stated with\<close>

text \<open>The strings the group \<^verbatim>\<open>[^\s][^<>]*[^\s]\<close> of the pattern matches.\<close>

definition marker_body :: "gostring \<Rightarrow> bool" where
  "marker_body b \<longleftrightarrow>
     2 \<le> length b \<and> \<not> perl_space (hd b) \<and> \<not> perl_space (last b) \<and>
     list_all (\<lambda>c. c \<noteq> rune_lt \<and> c \<noteq> rune_gt) (butlast (tl b))"

text \<open>\<open>s\<close> has a part that the pattern of the code matches.\<close>

definition has_match :: "gostring \<Rightarrow> bool" where
  "has_match s \<longleftrightarrow>
     (\<exists>pre body post. s = pre @ [rune_lt] @ body @ [rune_gt] @ post \<and> marker_body body)"

text \<open>
  A marker body in the sense of the spec's grammar, but of two or more runes: no
  \<^verbatim>\<open><\<close> or \<^verbatim>\<open>>\<close> in it, and no \<^verbatim>\<open>\s\<close> at either end.
\<close>

definition plain_body :: "gostring \<Rightarrow> bool" where
  "plain_body b \<longleftrightarrow>
     2 \<le> length b \<and> \<not> perl_space (hd b) \<and> \<not> perl_space (last b) \<and>
     list_all (\<lambda>c. c \<noteq> rune_lt \<and> c \<noteq> rune_gt) b"

text \<open>
  What the loop of ParseSpell extracts from its matches, in order.  The proofs use it; the
  properties are stated with \<open>declared_name\<close> and \<open>declared_defaults\<close> below.
\<close>

definition marker_decls :: "gostring \<Rightarrow> submatch list \<Rightarrow> (gostring \<times> gostring list) list" where
  "marker_decls spell ms =
     map (\<lambda>(start, end, paramStart, paramEnd).
            extractParamNameAndDefaults spell paramStart paramEnd) ms"

text \<open>The elements of a list in the order of their first appearance.\<close>

definition first_occurrences :: "'a list \<Rightarrow> 'a list" where
  "first_occurrences xs = rev (remdups (rev xs))"

text \<open>
  The slot indices of a segment sequence are a set of indices into its segments: no
  index comes twice, and each is in range.
\<close>

definition slots_valid :: "SpellSegments \<Rightarrow> bool" where
  "slots_valid ss \<longleftrightarrow>
     distinct (ParamIndices ss) \<and>
     list_all (\<lambda>i. 0 \<le> i \<and> i < int (length (Segments ss))) (ParamIndices ss)"

text \<open>The segments with the value of each slot's name in place of the name.\<close>

definition substituted :: "(gostring \<rightharpoonup> gostring) \<Rightarrow> int list \<Rightarrow> gostring list \<Rightarrow> gostring list" where
  "substituted paramValues idxs segs =
     map (\<lambda>k. if int k \<in> set idxs
              then (case paramValues (segs ! k) of Some v \<Rightarrow> v | None \<Rightarrow> segs ! k)
              else segs ! k)
       [0..<length segs]"

section \<open>The markers of the specification\<close>

text \<open>
  A marker body in the words of the specification: one or more runes, none of them
  \<^verbatim>\<open><\<close> or \<^verbatim>\<open>>\<close>, that do not start or end with whitespace.
\<close>

definition spec_marker_body :: "gostring \<Rightarrow> bool" where
  "spec_marker_body b \<longleftrightarrow>
     b \<noteq> [] \<and> list_all (\<lambda>c. c \<noteq> rune_lt \<and> c \<noteq> rune_gt) b \<and>
     \<not> perl_space (hd b) \<and> \<not> perl_space (last b)"

text \<open>\<open>s\<close> begins with a marker of the specification: \<^verbatim>\<open><\<close>, such a body, \<^verbatim>\<open>>\<close>.\<close>

definition begins_with_spec_marker :: "gostring \<Rightarrow> bool" where
  "begins_with_spec_marker s \<longleftrightarrow>
     (\<exists>body rest. s = [rune_lt] @ body @ [rune_gt] @ rest \<and> spec_marker_body body)"

text \<open>
  The number of markers of the specification in \<open>s\<close>: the positions at which one begins.
  Such markers cannot overlap, since the \<^verbatim>\<open><\<close> of a second one would lie in the body of
  the first.
\<close>

fun spec_marker_count :: "gostring \<Rightarrow> nat" where
  "spec_marker_count [] = 0"
| "spec_marker_count (c # cs) =
     (if begins_with_spec_marker (c # cs) then 1 else 0) + spec_marker_count cs"

section \<open>What a marker declares\<close>

text \<open>
  The name and the default values that a marker declares, read off its body: the body
  without the whitespace around it is cut at its first \<^verbatim>\<open>=\<close>; the name is what stands
  before, without the whitespace around it; the default values are the pieces between
  the semicolons of what stands behind, and there are none without \<^verbatim>\<open>=\<close>.  These
  functions go through the body rune by rune and use no function of the model of
  parse.go.
\<close>

fun strip_left :: "gostring \<Rightarrow> gostring" where
  "strip_left [] = []"
| "strip_left (c # cs) = (if IsSpace c then strip_left cs else c # cs)"

fun strip_right :: "gostring \<Rightarrow> gostring" where
  "strip_right [] = []"
| "strip_right (c # cs) =
     (case strip_right cs of
        [] \<Rightarrow> (if IsSpace c then [] else [c])
      | d # ds \<Rightarrow> c # d # ds)"

definition stripped :: "gostring \<Rightarrow> gostring" where
  "stripped s = strip_right (strip_left s)"

fun before_equals :: "gostring \<Rightarrow> gostring" where
  "before_equals [] = []"
| "before_equals (c # cs) = (if c = rune_eq then [] else c # before_equals cs)"

fun after_equals :: "gostring \<Rightarrow> gostring" where
  "after_equals [] = []"
| "after_equals (c # cs) = (if c = rune_eq then cs else after_equals cs)"

text \<open>The pieces between the semicolons; \<open>cur\<close> is the piece that is being read, reversed.\<close>

fun between_semicolons :: "gostring \<Rightarrow> gostring \<Rightarrow> gostring list" where
  "between_semicolons cur [] = [rev cur]"
| "between_semicolons cur (c # cs) =
     (if c = rune_semicolon then rev cur # between_semicolons [] cs
      else between_semicolons (c # cur) cs)"

definition declared_name :: "gostring \<Rightarrow> gostring" where
  "declared_name body = stripped (before_equals (stripped body))"

definition declared_defaults :: "gostring \<Rightarrow> gostring list" where
  "declared_defaults body =
     (if rune_eq \<in> set (stripped body) then between_semicolons [] (after_equals (stripped body))
      else [])"

section \<open>The pieces of a spell\<close>

text \<open>
  A spell read from left to right as a sequence of pieces: a marker with its body where
  the pattern matches, and a single rune of literal text where it does not.
\<close>

datatype piece = Literal rune | Marker gostring

text \<open>\<open>s\<close> begins with \<^verbatim>\<open><\<close>, \<open>body\<close>, \<^verbatim>\<open>>\<close>, and \<open>body\<close> is in the language of the group.\<close>

definition begins_with_match :: "gostring \<Rightarrow> gostring \<Rightarrow> bool" where
  "begins_with_match s body \<longleftrightarrow>
     marker_body body \<and> (\<exists>rest. s = [rune_lt] @ body @ [rune_gt] @ rest)"

text \<open>
  The reading is that of a scan for non-overlapping matches: where a match begins, the
  longest one is taken as a marker and the reading goes on behind it; where none
  begins, the rune is literal text.
\<close>

inductive pieces :: "gostring \<Rightarrow> piece list \<Rightarrow> bool" where
  pieces_Nil: "pieces [] []"
| pieces_Literal:
    "(\<forall>body. \<not> begins_with_match (c # cs) body) \<Longrightarrow> pieces cs ps \<Longrightarrow>
     pieces (c # cs) (Literal c # ps)"
| pieces_Marker:
    "begins_with_match s body \<Longrightarrow>
     (\<forall>body'. begins_with_match s body' \<longrightarrow> length body' \<le> length body) \<Longrightarrow>
     s = [rune_lt] @ body @ [rune_gt] @ rest \<Longrightarrow> pieces rest ps \<Longrightarrow>
     pieces s (Marker body # ps)"

text \<open>The bodies of the marker occurrences, in order, repeats and all.\<close>

fun marker_bodies :: "piece list \<Rightarrow> gostring list" where
  "marker_bodies [] = []"
| "marker_bodies (Literal c # ps) = marker_bodies ps"
| "marker_bodies (Marker body # ps) = body # marker_bodies ps"

text \<open>The unsubstituted form of a piece: a marker gives the bare name, literal text itself.\<close>

fun unsubstituted :: "piece \<Rightarrow> gostring" where
  "unsubstituted (Literal c) = [c]"
| "unsubstituted (Marker body) = declared_name body"

text \<open>
  The pieces computed with the matcher of the model.  The proofs use it to show that
  every spell has exactly one sequence of pieces, and to find the one of an example.
\<close>

function scan_pieces :: "gostring \<Rightarrow> piece list" where
  "scan_pieces [] = []"
| "scan_pieces (c # cs) =
     (case match_prefix (c # cs) of
        Some n \<Rightarrow> Marker (take (n - 2) cs) # scan_pieces (drop n (c # cs))
      | None \<Rightarrow> Literal c # scan_pieces cs)"
  by pat_completeness auto
termination
  by (relation "measure length")
     (auto elim!: match_prefix.elims split: if_splits option.splits)

section \<open>The pattern matcher\<close>

lemma match_rest_sound:
  "match_rest cs = Some n \<Longrightarrow>
     \<exists>ys z rest. cs = ys @ z # rune_gt # rest \<and> n = length ys + 2 \<and>
       list_all (\<lambda>c. c \<noteq> rune_lt \<and> c \<noteq> rune_gt) ys \<and> \<not> perl_space z"
proof (induction cs arbitrary: n)
  case Nil
  then show ?case by simp
next
  case (Cons c cs)
  show ?case
  proof (cases "c \<noteq> rune_lt \<and> c \<noteq> rune_gt \<and> match_rest cs \<noteq> None")
    case True
    then obtain k where k: "match_rest cs = Some k" by auto
    with True Cons.prems have n: "n = Suc k" by simp
    from Cons.IH [OF k] obtain ys z rest where
      "cs = ys @ z # rune_gt # rest" "k = length ys + 2"
      "list_all (\<lambda>c. c \<noteq> rune_lt \<and> c \<noteq> rune_gt) ys" "\<not> perl_space z"
      by blast
    with True n have "c # cs = (c # ys) @ z # rune_gt # rest \<and> n = length (c # ys) + 2 \<and>
       list_all (\<lambda>c. c \<noteq> rune_lt \<and> c \<noteq> rune_gt) (c # ys) \<and> \<not> perl_space z"
      by simp
    then show ?thesis by blast
  next
    case False
    with Cons.prems have "\<not> perl_space c \<and> n = 2 \<and> (\<exists>rest. cs = rune_gt # rest)"
      by (auto split: if_splits option.splits list.splits)
    then obtain rest where "c # cs = [] @ c # rune_gt # rest \<and> n = length ([]::gostring) + 2 \<and>
       list_all (\<lambda>c. c \<noteq> rune_lt \<and> c \<noteq> rune_gt) [] \<and> \<not> perl_space c"
      by auto
    then show ?thesis
      by blast
  qed
qed

lemma match_rest_complete:
  "list_all (\<lambda>c. c \<noteq> rune_lt \<and> c \<noteq> rune_gt) ys \<Longrightarrow> \<not> perl_space z \<Longrightarrow>
     match_rest (ys @ z # rune_gt # rest) \<noteq> None"
  by (induction ys) (auto split: option.splits)

lemma match_rest_plain:
  "list_all (\<lambda>c. c \<noteq> rune_lt \<and> c \<noteq> rune_gt) (ys @ [z]) \<Longrightarrow> \<not> perl_space z \<Longrightarrow>
   post = [] \<or> hd post \<noteq> rune_gt \<Longrightarrow>
     match_rest (ys @ z # rune_gt # post) = Some (length ys + 2)"
  by (induction ys) (auto simp: perl_space_def split: option.splits list.splits)

lemma body_decomp: "2 \<le> length b \<Longrightarrow> b = hd b # butlast (tl b) @ [last b]"
  by (cases b) (auto simp: Suc_le_eq)

lemma marker_body_iff:
  "marker_body b \<longleftrightarrow>
     (\<exists>x ys z. b = x # ys @ [z] \<and> \<not> perl_space x \<and> \<not> perl_space z \<and>
        list_all (\<lambda>c. c \<noteq> rune_lt \<and> c \<noteq> rune_gt) ys)"
proof
  assume "marker_body b"
  then have "b = hd b # butlast (tl b) @ [last b]" "\<not> perl_space (hd b)" "\<not> perl_space (last b)"
    "list_all (\<lambda>c. c \<noteq> rune_lt \<and> c \<noteq> rune_gt) (butlast (tl b))"
    using body_decomp by (auto simp: marker_body_def)
  then show "\<exists>x ys z. b = x # ys @ [z] \<and> \<not> perl_space x \<and> \<not> perl_space z \<and>
        list_all (\<lambda>c. c \<noteq> rune_lt \<and> c \<noteq> rune_gt) ys"
    by blast
next
  assume "\<exists>x ys z. b = x # ys @ [z] \<and> \<not> perl_space x \<and> \<not> perl_space z \<and>
        list_all (\<lambda>c. c \<noteq> rune_lt \<and> c \<noteq> rune_gt) ys"
  then show "marker_body b"
    by (auto simp: marker_body_def)
qed

lemma match_prefix_sound:
  assumes "match_prefix s = Some n"
  shows "\<exists>body rest. s = rune_lt # body @ rune_gt # rest \<and> marker_body body \<and> n = length body + 2"
proof -
  from assms obtain c1 cs k where s: "s = rune_lt # c1 # cs" and c1: "\<not> perl_space c1"
    and k: "match_rest cs = Some k" and n: "n = k + 2"
    by (cases s rule: match_prefix.cases) (auto split: if_splits option.splits)
  from match_rest_sound [OF k] obtain ys z rest where
    cs: "cs = ys @ z # rune_gt # rest" and "k = length ys + 2"
    and ys: "list_all (\<lambda>c. c \<noteq> rune_lt \<and> c \<noteq> rune_gt) ys" and z: "\<not> perl_space z"
    by blast
  then have "s = rune_lt # (c1 # ys @ [z]) @ rune_gt # rest" "n = length (c1 # ys @ [z]) + 2"
    using s n by auto
  moreover have "marker_body (c1 # ys @ [z])"
    using c1 ys z by (auto simp: marker_body_iff)
  ultimately show ?thesis by blast
qed

lemma match_prefix_complete:
  assumes "marker_body body"
  shows "match_prefix (rune_lt # body @ rune_gt # rest) \<noteq> None"
proof -
  from assms obtain x ys z where "body = x # ys @ [z]" "\<not> perl_space x" "\<not> perl_space z"
    "list_all (\<lambda>c. c \<noteq> rune_lt \<and> c \<noteq> rune_gt) ys"
    by (auto simp: marker_body_iff)
  then show ?thesis
    using match_rest_complete [of ys z rest] by auto
qed

lemma plain_body_iff:
  "plain_body b \<longleftrightarrow>
     (\<exists>x ys z. b = x # ys @ [z] \<and> \<not> perl_space x \<and> \<not> perl_space z \<and>
        list_all (\<lambda>c. c \<noteq> rune_lt \<and> c \<noteq> rune_gt) b)"
proof
  assume "plain_body b"
  then have "b = hd b # butlast (tl b) @ [last b]" "\<not> perl_space (hd b)" "\<not> perl_space (last b)"
    "list_all (\<lambda>c. c \<noteq> rune_lt \<and> c \<noteq> rune_gt) b"
    using body_decomp by (auto simp: plain_body_def)
  then show "\<exists>x ys z. b = x # ys @ [z] \<and> \<not> perl_space x \<and> \<not> perl_space z \<and>
        list_all (\<lambda>c. c \<noteq> rune_lt \<and> c \<noteq> rune_gt) b"
    by blast
next
  assume "\<exists>x ys z. b = x # ys @ [z] \<and> \<not> perl_space x \<and> \<not> perl_space z \<and>
        list_all (\<lambda>c. c \<noteq> rune_lt \<and> c \<noteq> rune_gt) b"
  then show "plain_body b"
    by (auto simp: plain_body_def)
qed

lemma match_prefix_plain:
  assumes "plain_body body" "post = [] \<or> hd post \<noteq> rune_gt"
  shows "match_prefix (rune_lt # body @ rune_gt # post) = Some (length body + 2)"
proof -
  from assms(1) obtain x ys z where b: "body = x # ys @ [z]" and "\<not> perl_space x" "\<not> perl_space z"
    "list_all (\<lambda>c. c \<noteq> rune_lt \<and> c \<noteq> rune_gt) (ys @ [z])"
    by (auto simp: plain_body_iff)
  then show ?thesis
    using match_rest_plain [of ys z post] assms(2) by auto
qed

lemma match_prefix_bounds:
  assumes "match_prefix s = Some n"
  shows "4 \<le> n \<and> n \<le> length s"
proof -
  from match_prefix_sound [OF assms] obtain body rest where
    "s = rune_lt # body @ rune_gt # rest" "marker_body body" "n = length body + 2"
    by blast
  then show ?thesis by (auto simp: marker_body_def)
qed

lemma match_rest_longest:
  "match_rest cs = Some n \<Longrightarrow> cs = ys @ z # rune_gt # rest \<Longrightarrow>
   list_all (\<lambda>c. c \<noteq> rune_lt \<and> c \<noteq> rune_gt) ys \<Longrightarrow> \<not> perl_space z \<Longrightarrow>
     length ys + 2 \<le> n"
proof (induction ys arbitrary: cs n)
  case Nil
  from match_rest_sound [OF Nil(1)] show ?case by auto
next
  case (Cons y ys)
  let ?tl = "ys @ z # rune_gt # rest"
  from Cons.prems have "match_rest ?tl \<noteq> None"
    by (intro match_rest_complete) simp_all
  then obtain m where m: "match_rest ?tl = Some m" by auto
  with Cons.prems have "n = Suc m" by simp
  moreover from Cons.IH [OF m refl] Cons.prems have "length ys + 2 \<le> m" by simp
  ultimately show ?case by simp
qed

text \<open>Of the matches at one offset the matcher returns the longest: the star is greedy.\<close>

lemma match_prefix_longest:
  assumes "match_prefix s = Some n" "s = rune_lt # body @ rune_gt # rest" "marker_body body"
  shows "length body + 2 \<le> n"
proof -
  from assms(3) obtain x ys z where b: "body = x # ys @ [z]" and x: "\<not> perl_space x"
    and z: "\<not> perl_space z" and ys: "list_all (\<lambda>c. c \<noteq> rune_lt \<and> c \<noteq> rune_gt) ys"
    by (auto simp: marker_body_iff)
  from assms(1,2) b x obtain k where k: "match_rest (ys @ z # rune_gt # rest) = Some k"
    and n: "n = k + 2"
    by (auto split: option.splits)
  from match_rest_longest [OF k refl ys z] n b show ?thesis by simp
qed

lemma plain_body_facts:
  assumes "plain_body body"
  shows "body \<noteq> []" "hd body \<noteq> rune_gt" "2 \<le> length body"
  using assms by (cases body; auto simp: plain_body_def)+

section \<open>The scan for markers\<close>

lemma has_match_Cons: "has_match cs \<Longrightarrow> has_match (c # cs)"
proof -
  assume "has_match cs"
  then obtain pre body post where "cs = pre @ [rune_lt] @ body @ [rune_gt] @ post" "marker_body body"
    by (auto simp: has_match_def)
  then have "c # cs = (c # pre) @ [rune_lt] @ body @ [rune_gt] @ post \<and> marker_body body"
    by simp
  then show ?thesis
    unfolding has_match_def by blast
qed

lemma find_all_has_match: "find_all pos s \<noteq> [] \<Longrightarrow> has_match s"
proof (induction s arbitrary: pos)
  case Nil
  then show ?case by simp
next
  case (Cons c cs)
  show ?case
  proof (cases "match_prefix (c # cs)")
    case None
    with Cons.prems have "find_all (pos + 1) cs \<noteq> []" by simp
    then show ?thesis using Cons.IH has_match_Cons by blast
  next
    case (Some n)
    from match_prefix_sound [OF Some] obtain body rest where
      "c # cs = [] @ [rune_lt] @ body @ [rune_gt] @ rest \<and> marker_body body"
      by auto
    then show ?thesis
      unfolding has_match_def by blast
  qed
qed

lemma has_match_find_all: "has_match s \<Longrightarrow> find_all pos s \<noteq> []"
proof (induction s arbitrary: pos)
  case Nil
  then show ?case by (simp add: has_match_def)
next
  case (Cons c cs)
  show ?case
  proof (cases "match_prefix (c # cs)")
    case (Some n)
    then show ?thesis by simp
  next
    case None
    from Cons.prems obtain pre body post where
      s: "c # cs = pre @ [rune_lt] @ body @ [rune_gt] @ post" and b: "marker_body body"
      by (auto simp: has_match_def)
    have "pre \<noteq> []"
    proof
      assume "pre = []"
      with s have "c # cs = rune_lt # body @ rune_gt # post" by simp
      with match_prefix_complete [OF b, of post] None show False by simp
    qed
    then obtain pre' where "pre = c # pre'" using s by (cases pre) auto
    with s b have "has_match cs"
      unfolding has_match_def by auto
    then have "find_all (pos + 1) cs \<noteq> []" by (rule Cons.IH)
    with None show ?thesis by simp
  qed
qed

lemma no_match_iff: "FindAllStringSubmatchIndex s = [] \<longleftrightarrow> \<not> has_match s"
  unfolding FindAllStringSubmatchIndex_def
  using find_all_has_match has_match_find_all by blast

lemma slice_drop: "slice (drop n s) a b = slice s (n + a) (n + b)"
  by (simp add: slice_def add.commute)

lemma slice_append_left: "slice (A @ s) (length A + a) (length A + b) = slice s a b"
  by (simp add: slice_def)

lemma extract_append_left:
  "extractParamNameAndDefaults (A @ s) (length A + a) (length A + b) =
     extractParamNameAndDefaults s a b"
  by (simp add: extractParamNameAndDefaults_def slice_append_left)

lemma slice_marker_body:
  "slice (pre @ [rune_lt] @ body @ [rune_gt] @ post) (length pre + 1) (length pre + length body + 1) =
     body"
  by (simp add: slice_def)

lemma extract_marker_body:
  "extractParamNameAndDefaults (pre @ [rune_lt] @ body @ [rune_gt] @ post)
     (length pre + 1) (length pre + length body + 1) =
   extractParamNameAndDefaults body 0 (length body)"
  unfolding extractParamNameAndDefaults_def slice_marker_body by (simp add: slice_def)

text \<open>What is known of every match that is found.\<close>

lemma find_all_matches:
  "(a, b, ps, pe) \<in> set (find_all (length A) s) \<Longrightarrow>
     length A \<le> a \<and> ps = a + 1 \<and> b = pe + 1 \<and> b \<le> length (A @ s) \<and>
     marker_body (slice (A @ s) ps pe) \<and> (A @ s) ! a = rune_lt \<and> (A @ s) ! pe = rune_gt"
proof (induction "length A" s arbitrary: A rule: find_all.induct)
  case (1 A)
  then show ?case by simp
next
  case (2 c cs A)
  show ?case
  proof (cases "match_prefix (c # cs)")
    case None
    have "length A + 1 = length (A @ [c])" by simp
    moreover have "(a, b, ps, pe) \<in> set (find_all (length (A @ [c])) cs)"
      using "2.prems" None by simp
    ultimately have "length (A @ [c]) \<le> a \<and> ps = a + 1 \<and> b = pe + 1 \<and>
      b \<le> length ((A @ [c]) @ cs) \<and> marker_body (slice ((A @ [c]) @ cs) ps pe) \<and>
      ((A @ [c]) @ cs) ! a = rune_lt \<and> ((A @ [c]) @ cs) ! pe = rune_gt"
      using "2.hyps"(1) [OF None] by blast
    then show ?thesis by auto
  next
    case (Some n)
    from match_prefix_sound [OF Some] obtain body rest where
      s: "c # cs = rune_lt # body @ rune_gt # rest" and body: "marker_body body"
      and n: "n = length body + 2"
      by blast
    show ?thesis
    proof (cases "(a, b, ps, pe) = (length A, length A + n, length A + 1, length A + n - 1)")
      case True
      have "slice (A @ c # cs) (length A + 1) (length A + (n - 1)) = slice (c # cs) 1 (n - 1)"
        by (rule slice_append_left)
      also have "\<dots> = body"
        unfolding s n by (simp add: slice_def)
      finally have "marker_body (slice (A @ c # cs) ps pe)"
        using True body n by simp
      moreover have "(A @ c # cs) ! (length A + (length body + 1)) = rune_gt"
        unfolding s by (simp add: nth_append)
      moreover have "(A @ c # cs) ! length A = rune_lt"
        using s by simp
      ultimately show ?thesis
        using True n s by (auto simp: marker_body_def)
    next
      case False
      have len: "length A + n = length (A @ take n (c # cs))"
        using n s by simp
      have "(a, b, ps, pe) \<in> set (find_all (length A + n) (drop n (c # cs)))"
        using "2.prems" Some False by auto
      then have "(a, b, ps, pe) \<in> set (find_all (length (A @ take n (c # cs))) (drop n (c # cs)))"
        using len by simp
      then have "length (A @ take n (c # cs)) \<le> a \<and> ps = a + 1 \<and> b = pe + 1 \<and>
        b \<le> length ((A @ take n (c # cs)) @ drop n (c # cs)) \<and>
        marker_body (slice ((A @ take n (c # cs)) @ drop n (c # cs)) ps pe) \<and>
        ((A @ take n (c # cs)) @ drop n (c # cs)) ! a = rune_lt \<and>
        ((A @ take n (c # cs)) @ drop n (c # cs)) ! pe = rune_gt"
        using "2.hyps"(2) [OF Some len] by blast
      then show ?thesis
        by (simp del: take_Suc_Cons drop_Suc_Cons)
          (metis le_add1 le_trans len length_append)
    qed
  qed
qed

text \<open>
  A match that begins before a marker whose body has no \<^verbatim>\<open>>\<close> at its head, and not at a
  \<^verbatim>\<open><\<close> right before it, ends before the marker.
\<close>

lemma nth_marker_shape:
  "j < length ys \<Longrightarrow> (a # x # ys @ z # g # R) ! (j + 2) = ys ! j"
  "(a # x # ys @ z # g # R) ! (length ys + 2) = z"
  "(a # x # ys @ z # g # R) ! (length ys + 3) = g"
  by (simp_all add: nth_append numeral_3_eq_3)

lemma match_prefix_no_overlap:
  assumes m: "match_prefix (pre @ rune_lt # body @ rest) = Some n"
    and pre: "pre \<noteq> []" "last pre \<noteq> rune_lt"
    and body: "body \<noteq> []" "hd body \<noteq> rune_gt"
  shows "n \<le> length pre"
proof (rule ccontr)
  assume "\<not> n \<le> length pre"
  let ?s = "pre @ rune_lt # body @ rest"
  let ?k = "length pre"
  from match_prefix_sound [OF m] obtain B R where
    s: "?s = rune_lt # B @ rune_gt # R" and B: "marker_body B" and n: "n = length B + 2"
    by blast
  from B obtain x ys z where B': "B = x # ys @ [z]"
    and ys: "list_all (\<lambda>c. c \<noteq> rune_lt \<and> c \<noteq> rune_gt) ys"
    by (auto simp: marker_body_iff)
  have s': "?s = rune_lt # x # ys @ z # rune_gt # R"
    using s B' by simp
  have k: "?k < length ys + 4" "1 \<le> ?k"
    using \<open>\<not> n \<le> length pre\<close> n B' pre(1) by (simp_all add: Suc_le_eq)
  have at_k: "?s ! ?k = rune_lt" by simp
  have at_Suc_k: "?s ! Suc ?k = hd body"
    using body(1) by (cases body) (simp_all add: nth_append)
  consider "?k = 1" | "2 \<le> ?k \<and> ?k < length ys + 2" | "?k = length ys + 2" | "?k = length ys + 3"
    using k by linarith
  then show False
  proof cases
    case 1
    then have "pre = [?s ! 0]"
      by (cases pre) simp_all
    then have "pre = [rune_lt]"
      unfolding s' by simp
    with pre(2) show False by simp
  next
    case 2
    then obtain j where j: "?k = j + 2" "j < length ys"
      by (intro that [of "?k - 2"]) auto
    then have "(rune_lt # x # ys @ z # rune_gt # R) ! ?k = ys ! j"
      using nth_marker_shape(1) [OF j(2)] by simp
    moreover have "ys ! j \<in> set ys"
      using j by simp
    ultimately have "?s ! ?k \<noteq> rune_lt"
      using ys unfolding s' by (auto simp: list_all_iff)
    with at_k show False by simp
  next
    case 3
    then have "(rune_lt # x # ys @ z # rune_gt # R) ! Suc ?k = rune_gt"
      using nth_marker_shape(3) [of rune_lt x ys z rune_gt R] by (simp add: numeral_3_eq_3)
    with at_Suc_k body(2) show False
      unfolding s' by simp
  next
    case 4
    then have "(rune_lt # x # ys @ z # rune_gt # R) ! ?k = rune_gt"
      using nth_marker_shape(3) [of rune_lt x ys z rune_gt R] by simp
    with at_k show False
      unfolding s' by simp
  qed
qed

lemma find_all_member:
  assumes body: "plain_body body" and post: "post = [] \<or> hd post \<noteq> rune_gt"
  shows "pre = [] \<or> last pre \<noteq> rune_lt \<Longrightarrow>
    (pos + length pre, pos + length pre + length body + 2, pos + length pre + 1,
     pos + length pre + length body + 1)
      \<in> set (find_all pos (pre @ rune_lt # body @ rune_gt # post))"
proof (induction "length pre" arbitrary: pre pos rule: less_induct)
  case less
  let ?M = "rune_lt # body @ rune_gt # post"
  show ?case
  proof (cases pre)
    case Nil
    have "match_prefix ?M = Some (length body + 2)"
      using body post by (rule match_prefix_plain)
    then show ?thesis using Nil by simp
  next
    case (Cons c p')
    then have last: "last pre \<noteq> rune_lt" and ne: "pre \<noteq> []"
      using less.prems by auto
    show ?thesis
    proof (cases "match_prefix (pre @ ?M)")
      case None
      have "p' = [] \<or> last p' \<noteq> rune_lt"
        using last Cons by auto
      moreover have "length p' < length pre" using Cons by simp
      ultimately have "(pos + 1 + length p', pos + 1 + length p' + length body + 2,
          pos + 1 + length p' + 1, pos + 1 + length p' + length body + 1)
          \<in> set (find_all (pos + 1) (p' @ ?M))"
        using less.hyps by blast
      then show ?thesis
        using None Cons by simp
    next
      case (Some n)
      have n_le: "n \<le> length pre"
        using Some ne last plain_body_facts(1,2) [OF body]
        by (rule match_prefix_no_overlap)
      from match_prefix_bounds [OF Some] have n_pos: "0 < n" by simp
      let ?p = "drop n pre"
      have dropn: "drop n (pre @ ?M) = ?p @ ?M"
        using n_le by simp
      have "?p = [] \<or> last ?p \<noteq> rune_lt"
        using last by (cases "n < length pre") simp_all
      moreover have "length ?p < length pre"
        using n_pos ne by simp
      ultimately have "(pos + n + length ?p, pos + n + length ?p + length body + 2,
          pos + n + length ?p + 1, pos + n + length ?p + length body + 1)
          \<in> set (find_all (pos + n) (?p @ ?M))"
        using less.hyps by blast
      moreover have "pos + n + length ?p = pos + length pre"
        using n_le by simp
      moreover have "find_all pos (pre @ ?M) =
          (pos, pos + n, pos + 1, pos + n - 1) # find_all (pos + n) (?p @ ?M)"
        using Some dropn Cons by simp
      ultimately show ?thesis by simp
    qed
  qed
qed

lemma find_all_single_rune: "FindAllStringSubmatchIndex [rune_lt, a, rune_gt] = []"
  by (simp add: FindAllStringSubmatchIndex_def perl_space_def)

text \<open>A body of one rune makes no marker, whatever the rune: the spell stays one segment.\<close>

lemma ParseSpell_single_rune_body:
  "ParseSpell [rune_lt, a, rune_gt] =
     Inr \<lparr>Segments = [[rune_lt, a, rune_gt]], ParamIndices = [], Params = []\<rparr>"
  unfolding ParseSpell_def find_all_single_rune by simp

section \<open>Trimming, splitting and joining\<close>

lemma TrimSpace_trimmed:
  "TrimSpace s = [] \<or> (\<not> IsSpace (hd (TrimSpace s)) \<and> \<not> IsSpace (last (TrimSpace s)))"
proof (cases "TrimSpace s = []")
  case True
  then show ?thesis by simp
next
  case False
  let ?a = "dropWhile IsSpace s"
  let ?b = "dropWhile IsSpace (rev ?a)"
  have b: "?b \<noteq> []" using False by (simp add: TrimSpace_def)
  then have "\<not> IsSpace (hd ?b)" by (rule hd_dropWhile)
  then have last: "\<not> IsSpace (last (TrimSpace s))"
    using b by (simp add: TrimSpace_def last_rev)
  have a: "?a \<noteq> []"
  proof
    assume "?a = []"
    then have "?b = []" by (metis dropWhile.simps(1) rev.simps(1))
    with b show False by contradiction
  qed
  then have hd_a: "\<not> IsSpace (hd ?a)" by (rule hd_dropWhile)
  have "rev ?a = takeWhile IsSpace (rev ?a) @ ?b" by simp
  then have "?a = rev ?b @ rev (takeWhile IsSpace (rev ?a))"
    by (metis rev_append rev_rev_ident)
  then have "hd ?a = hd (rev ?b)"
    using b by (metis hd_append2 rev_is_Nil_conv)
  with hd_a have "\<not> IsSpace (hd (TrimSpace s))"
    by (simp add: TrimSpace_def)
  with last show ?thesis by simp
qed

lemma Split_not_Nil: "Split s sep \<noteq> []"
  by (induction s) (auto split: list.splits)

lemma Split_pieces: "list_all (\<lambda>d. sep \<notin> set d) (Split s sep)"
  by (induction s) (auto split: list.splits)

lemma Join_Cons: "es \<noteq> [] \<Longrightarrow> Join (e # es) sep = e @ sep @ Join es sep"
  by (cases es) simp_all

lemma Join_Split: "Join (Split s sep) [sep] = s"
proof (induction s)
  case Nil
  then show ?case by simp
next
  case (Cons c s)
  obtain p ps where sp: "Split s sep = p # ps"
    using Split_not_Nil [of s sep] by (cases "Split s sep") auto
  show ?case
  proof (cases "c = sep")
    case True
    then show ?thesis
      using Cons Split_not_Nil [of s sep] by (simp add: Join_Cons)
  next
    case False
    then show ?thesis
      using Cons sp by (cases ps) simp_all
  qed
qed

lemma Join_no_separator: "Join xs [] = concat xs"
  by (induction xs "[]::gostring" rule: Join.induct) simp_all

section \<open>The loop of ParseSpell\<close>

lemma parse_loop_append:
  "parse_loop spell (xs @ ys) st =
     (case parse_loop spell xs st of Inl err \<Rightarrow> Inl err | Inr st' \<Rightarrow> parse_loop spell ys st')"
  by (induction xs arbitrary: st) (auto split: sum.splits)

lemma parse_loop_snoc_Inr:
  assumes "parse_loop spell (ms @ [m]) st = Inr st'"
  obtains st0 where "parse_loop spell ms st = Inr st0" "loop_body spell st0 m = Inr st'"
  using assms by (auto simp: parse_loop_append split: sum.splits)

text \<open>What one round of the loop does to the variables when it does not return.\<close>

lemma loop_body_Inr:
  assumes "loop_body spell st (start, end, paramStart, paramEnd) = Inr st'"
    and "extractParamNameAndDefaults spell paramStart paramEnd = (name, defaultValues)"
    and "segs = (if start > lastEnd st then segments st @ [slice spell (lastEnd st) start]
                 else segments st)"
  shows "segments st' = segs @ [name]"
    and "paramIndices st' = paramIndices st @ [int (length segs)]"
    and "lastEnd st' = end"
    and "paramMap st name \<noteq> None \<Longrightarrow>
           paramMap st' = paramMap st \<and> paramOrder st' = paramOrder st \<and>
           length defaultValues \<le> 1"
    and "paramMap st name = None \<Longrightarrow>
           paramMap st' = (paramMap st)(name \<mapsto> \<lparr>Name = name, DefaultValues = defaultValues\<rparr>) \<and>
           paramOrder st' = paramOrder st @ [name]"
  using assms by (auto simp: loop_body_def Let_def split: if_splits)

lemma first_occurrences_snoc:
  "first_occurrences (xs @ [x]) =
     (if x \<in> set xs then first_occurrences xs else first_occurrences xs @ [x])"
  by (simp add: first_occurrences_def)

lemma first_occurrences_set: "set (first_occurrences xs) = set xs"
  by (simp add: first_occurrences_def)

lemma first_occurrences_distinct: "distinct (first_occurrences xs)"
  by (simp add: first_occurrences_def)

lemma marker_decls_snoc:
  "marker_decls spell (ms @ [(start, end, paramStart, paramEnd)]) =
     marker_decls spell ms @ [extractParamNameAndDefaults spell paramStart paramEnd]"
  by (simp add: marker_decls_def)

lemma parse_loop_invariant:
  assumes "parse_loop spell ms
     \<lparr>segments = [], paramIndices = [], paramMap = Map.empty, paramOrder = [], lastEnd = 0\<rparr> =
     Inr st"
  shows "length (paramIndices st) = length ms \<and>
    paramOrder st = first_occurrences (map fst (marker_decls spell ms)) \<and>
    paramMap st =
      (\<lambda>n. map_option (\<lambda>d. \<lparr>Name = n, DefaultValues = d\<rparr>) (map_of (marker_decls spell ms) n)) \<and>
    map (\<lambda>i. segments st ! nat i) (paramIndices st) = map fst (marker_decls spell ms) \<and>
    sorted_wrt (<) (paramIndices st) \<and>
    list_all (\<lambda>i. 0 \<le> i \<and> i < int (length (segments st))) (paramIndices st)"
  using assms
proof (induction ms arbitrary: st rule: rev_induct)
  case Nil
  then show ?case
    by (auto simp: marker_decls_def first_occurrences_def)
next
  case (snoc m ms)
  obtain start "end" paramStart paramEnd where m: "m = (start, end, paramStart, paramEnd)"
    by (cases m) auto
  obtain name defaultValues where
    ex: "extractParamNameAndDefaults spell paramStart paramEnd = (name, defaultValues)"
    by (cases "extractParamNameAndDefaults spell paramStart paramEnd") auto
  from snoc.prems obtain st0 where
    st0: "parse_loop spell ms
       \<lparr>segments = [], paramIndices = [], paramMap = Map.empty, paramOrder = [], lastEnd = 0\<rparr> =
       Inr st0"
    and body: "loop_body spell st0 (start, end, paramStart, paramEnd) = Inr st"
    unfolding m by (rule parse_loop_snoc_Inr)
  let ?decls = "marker_decls spell ms"
  let ?segs = "if start > lastEnd st0 then segments st0 @ [slice spell (lastEnd st0) start]
               else segments st0"
  note IH = snoc.IH [OF st0]
  note step = loop_body_Inr [OF body ex refl]
  have decls: "marker_decls spell (ms @ [m]) = ?decls @ [(name, defaultValues)]"
    unfolding m marker_decls_snoc ex ..
  have seen: "paramMap st0 name \<noteq> None \<longleftrightarrow> name \<in> set (map fst ?decls)"
    using IH by (auto simp: map_of_eq_None_iff)
  have len: "length (paramIndices st) = length (ms @ [m])"
    using IH step(2) by simp
  have order: "paramOrder st = first_occurrences (map fst (marker_decls spell (ms @ [m])))"
  proof (cases "paramMap st0 name")
    case None
    then show ?thesis
      using step(5) [OF None] seen IH by (simp add: decls first_occurrences_snoc)
  next
    case (Some p)
    then have present: "paramMap st0 name \<noteq> None" by simp
    then show ?thesis
      using step(4) [OF present] seen IH by (simp add: decls first_occurrences_snoc)
  qed
  have pmap: "paramMap st =
      (\<lambda>n. map_option (\<lambda>d. \<lparr>Name = n, DefaultValues = d\<rparr>)
           (map_of (marker_decls spell (ms @ [m])) n))"
  proof (cases "paramMap st0 name")
    case None
    then have "map_of ?decls name = None" using IH by simp
    then show ?thesis
      using step(5) [OF None] IH
      by (auto simp: decls map_add_def fun_eq_iff split: option.splits)
  next
    case (Some p)
    then have present: "paramMap st0 name \<noteq> None" by simp
    then have "map_of ?decls name \<noteq> None" using IH by auto
    then show ?thesis
      using step(4) [OF present] IH
      by (auto simp: decls map_add_def fun_eq_iff split: option.splits)
  qed
  have old: "(segments st) ! nat i = segments st0 ! nat i" if "i \<in> set (paramIndices st0)" for i
  proof -
    from that IH have "nat i < length (segments st0)"
      by (auto simp: list_all_iff)
    then show ?thesis
      using step(1) by (simp add: nth_append)
  qed
  have names: "map (\<lambda>i. segments st ! nat i) (paramIndices st) =
      map fst (marker_decls spell (ms @ [m]))"
  proof -
    have "map (\<lambda>i. segments st ! nat i) (paramIndices st0) =
          map (\<lambda>i. segments st0 ! nat i) (paramIndices st0)"
      by (rule map_cong) (simp_all add: old)
    moreover have "segments st ! length ?segs = name"
      using step(1) by simp
    ultimately show ?thesis
      using step(2) IH by (simp add: decls)
  qed
  have bound0: "list_all (\<lambda>i. 0 \<le> i \<and> i < int (length ?segs)) (paramIndices st0)"
    using IH by (auto simp: list_all_iff)
  have sorted: "sorted_wrt (<) (paramIndices st)"
    using step(2) IH bound0 by (auto simp: sorted_wrt_append list_all_iff)
  have bounds: "list_all (\<lambda>i. 0 \<le> i \<and> i < int (length (segments st))) (paramIndices st)"
    using step(1,2) bound0 by (auto simp: list_all_iff)
  from len order pmap names sorted bounds show ?case by blast
qed

section \<open>The result of ParseSpell\<close>

lemma ParseSpell_Inr_cases:
  assumes "ParseSpell spell = Inr ss"
  obtains
    (no_match) "FindAllStringSubmatchIndex spell = []"
      "ss = \<lparr>Segments = [spell], ParamIndices = [], Params = []\<rparr>"
  | (matches) st where "FindAllStringSubmatchIndex spell \<noteq> []"
      "parse_loop spell (FindAllStringSubmatchIndex spell)
         \<lparr>segments = [], paramIndices = [], paramMap = Map.empty, paramOrder = [], lastEnd = 0\<rparr> =
         Inr st"
      "Segments ss = (if lastEnd st < length spell then segments st @ [drop (lastEnd st) spell]
                      else segments st)"
      "ParamIndices ss = paramIndices st"
      "Params ss = map (\<lambda>name. case paramMap st name of Some p \<Rightarrow> p
                               | None \<Rightarrow> \<lparr>Name = [], DefaultValues = []\<rparr>) (paramOrder st)"
  using assms unfolding ParseSpell_def Let_def
  by (cases "FindAllStringSubmatchIndex spell = []") (auto split: sum.splits)

lemma ParseSpell_Inr_facts:
  assumes "ParseSpell spell = Inr ss"
  defines "decls \<equiv> marker_decls spell (FindAllStringSubmatchIndex spell)"
  shows "length (ParamIndices ss) = length (FindAllStringSubmatchIndex spell)"
    and "map Name (Params ss) = first_occurrences (map fst decls)"
    and "list_all (\<lambda>p. map_of decls (Name p) = Some (DefaultValues p)) (Params ss)"
    and "map (\<lambda>i. Segments ss ! nat i) (ParamIndices ss) = map fst decls"
    and "sorted_wrt (<) (ParamIndices ss)"
    and "list_all (\<lambda>i. 0 \<le> i \<and> i < int (length (Segments ss))) (ParamIndices ss)"
proof -
  have "length (ParamIndices ss) = length (FindAllStringSubmatchIndex spell) \<and>
    map Name (Params ss) = first_occurrences (map fst decls) \<and>
    list_all (\<lambda>p. map_of decls (Name p) = Some (DefaultValues p)) (Params ss) \<and>
    map (\<lambda>i. Segments ss ! nat i) (ParamIndices ss) = map fst decls \<and>
    sorted_wrt (<) (ParamIndices ss) \<and>
    list_all (\<lambda>i. 0 \<le> i \<and> i < int (length (Segments ss))) (ParamIndices ss)"
    using assms(1)
  proof (cases rule: ParseSpell_Inr_cases)
    case no_match
    then show ?thesis
      by (simp add: decls_def marker_decls_def first_occurrences_def)
  next
    case (matches st)
    let ?look = "\<lambda>name. case paramMap st name of Some p \<Rightarrow> p
                               | None \<Rightarrow> \<lparr>Name = [], DefaultValues = []\<rparr>"
    from parse_loop_invariant [OF matches(2)]
    have len: "length (paramIndices st) = length (FindAllStringSubmatchIndex spell)"
      and order: "paramOrder st = first_occurrences (map fst decls)"
      and pmap: "paramMap st =
        (\<lambda>n. map_option (\<lambda>d. \<lparr>Name = n, DefaultValues = d\<rparr>) (map_of decls n))"
      and names: "map (\<lambda>i. segments st ! nat i) (paramIndices st) = map fst decls"
      and sorted: "sorted_wrt (<) (paramIndices st)"
      and bounds: "list_all (\<lambda>i. 0 \<le> i \<and> i < int (length (segments st))) (paramIndices st)"
      unfolding decls_def by blast+
    have look: "\<exists>d. map_of decls n = Some d \<and> ?look n = \<lparr>Name = n, DefaultValues = d\<rparr>"
      if "n \<in> set (paramOrder st)" for n
    proof -
      from that have "n \<in> fst ` set decls"
        unfolding order first_occurrences_set by simp
      then obtain d where "map_of decls n = Some d"
        by (metis map_of_eq_None_iff not_None_eq)
      then show ?thesis by (simp add: pmap)
    qed
    have "map Name (Params ss) = map (\<lambda>n. Name (?look n)) (paramOrder st)"
      unfolding matches(5) by simp
    also have "\<dots> = map (\<lambda>n. n) (paramOrder st)"
      by (rule map_cong) (use look in force)+
    finally have P1: "map Name (Params ss) = first_occurrences (map fst decls)"
      using order by simp
    have P2: "list_all (\<lambda>p. map_of decls (Name p) = Some (DefaultValues p)) (Params ss)"
      unfolding matches(5) list_all_iff using look by force
    have same: "Segments ss ! nat i = segments st ! nat i" if "i \<in> set (paramIndices st)" for i
    proof -
      from that bounds have "nat i < length (segments st)" by (auto simp: list_all_iff)
      then show ?thesis unfolding matches(3) by (simp add: nth_append)
    qed
    have "map (\<lambda>i. Segments ss ! nat i) (paramIndices st) =
          map (\<lambda>i. segments st ! nat i) (paramIndices st)"
      by (rule map_cong) (simp_all add: same)
    then have P3: "map (\<lambda>i. Segments ss ! nat i) (ParamIndices ss) = map fst decls"
      using names matches(4) by simp
    have P4: "list_all (\<lambda>i. 0 \<le> i \<and> i < int (length (Segments ss))) (ParamIndices ss)"
      using bounds unfolding matches(3,4) by (auto simp: list_all_iff)
    from len P1 P2 P3 sorted P4 matches(4) show ?thesis by simp
  qed
  then show "length (ParamIndices ss) = length (FindAllStringSubmatchIndex spell)"
    and "map Name (Params ss) = first_occurrences (map fst decls)"
    and "list_all (\<lambda>p. map_of decls (Name p) = Some (DefaultValues p)) (Params ss)"
    and "map (\<lambda>i. Segments ss ! nat i) (ParamIndices ss) = map fst decls"
    and "sorted_wrt (<) (ParamIndices ss)"
    and "list_all (\<lambda>i. 0 \<le> i \<and> i < int (length (Segments ss))) (ParamIndices ss)"
    by blast+
qed

section \<open>What extractParamNameAndDefaults returns\<close>

text \<open>
  The function returns, for the text between two offsets, the name and the default values
  that this text declares as a marker body.
\<close>

lemma strip_left_dropWhile: "strip_left s = dropWhile IsSpace s"
  by (induction s) simp_all

lemma strip_right_dropWhile: "strip_right s = rev (dropWhile IsSpace (rev s))"
proof (induction s)
  case Nil
  then show ?case by simp
next
  case (Cons c cs)
  show ?case
  proof (cases "\<forall>x\<in>set cs. IsSpace x")
    case True
    then have "dropWhile IsSpace (rev cs) = []" by simp
    with Cons True show ?thesis by (simp add: dropWhile_append)
  next
    case False
    then have "dropWhile IsSpace (rev cs) \<noteq> []" by simp
    with Cons have "strip_right cs \<noteq> []" by simp
    then obtain a l where "strip_right cs = a # l" by (cases "strip_right cs") auto
    then have "strip_right (c # cs) = c # strip_right cs" by simp
    also have "\<dots> = rev (dropWhile IsSpace (rev (c # cs)))"
      using Cons False by (simp add: dropWhile_append)
    finally show ?thesis .
  qed
qed

lemma TrimSpace_stripped: "TrimSpace s = stripped s"
  by (simp add: TrimSpace_def stripped_def strip_left_dropWhile strip_right_dropWhile)

lemma before_equals_takeWhile: "before_equals s = takeWhile (\<lambda>c. c \<noteq> rune_eq) s"
  by (induction s) simp_all

lemma after_equals_dropWhile: "after_equals s = tl (dropWhile (\<lambda>c. c \<noteq> rune_eq) s)"
  by (induction s) simp_all

lemma between_semicolons_Split:
  "between_semicolons cur s =
     (rev cur @ hd (Split s rune_semicolon)) # tl (Split s rune_semicolon)"
proof (induction s arbitrary: cur)
  case Nil
  then show ?case by simp
next
  case (Cons c s)
  obtain p ps where sp: "Split s rune_semicolon = p # ps"
    using Split_not_Nil [of s rune_semicolon] by (cases "Split s rune_semicolon") auto
  show ?case
    using Cons [of "c # cur"] Cons [of "[]"] sp by simp
qed

lemma between_semicolons_Nil_Split: "between_semicolons [] s = Split s rune_semicolon"
  using Split_not_Nil [of s rune_semicolon] by (simp add: between_semicolons_Split)

lemma extract_declared:
  "extractParamNameAndDefaults spell paramStart paramEnd =
     (declared_name (slice spell paramStart paramEnd),
      declared_defaults (slice spell paramStart paramEnd))"
proof (cases "rune_eq \<in> set (stripped (slice spell paramStart paramEnd))")
  case True
  then show ?thesis
    by (simp add: extractParamNameAndDefaults_def SplitN_2_def Let_def declared_name_def
        declared_defaults_def TrimSpace_stripped before_equals_takeWhile
        after_equals_dropWhile between_semicolons_Nil_Split)
next
  case False
  then have tw: "takeWhile (\<lambda>c. c \<noteq> rune_eq) (stripped (slice spell paramStart paramEnd)) =
             stripped (slice spell paramStart paramEnd)"
    by (auto simp add: takeWhile_eq_all_conv)
  from False show ?thesis
    by (simp add: extractParamNameAndDefaults_def SplitN_2_def Let_def declared_name_def
        declared_defaults_def TrimSpace_stripped before_equals_takeWhile tw)
qed

lemma declared_name_no_equals: "rune_eq \<notin> set (declared_name body)"
proof -
  have "rune_eq \<notin> set (before_equals s)" for s
    by (induction s) simp_all
  moreover have "set (stripped s) \<subseteq> set s" for s
    unfolding TrimSpace_stripped [symmetric] TrimSpace_def
    by (metis (no_types, lifting) set_dropWhileD set_rev subsetI)
  ultimately show ?thesis
    unfolding declared_name_def by blast
qed

section \<open>Every spell has one reading\<close>

lemma match_prefix_begins:
  assumes "match_prefix s = Some n"
  shows "begins_with_match s (take (n - 2) (tl s))"
    and "s = [rune_lt] @ take (n - 2) (tl s) @ [rune_gt] @ drop n s"
    and "begins_with_match s body' \<Longrightarrow> length body' \<le> n - 2"
proof -
  from match_prefix_sound [OF assms] obtain body rest where
    s: "s = rune_lt # body @ rune_gt # rest" and mb: "marker_body body" and n: "n = length body + 2"
    by blast
  have body: "take (n - 2) (tl s) = body" using s n by simp
  have rest: "drop n s = rest" using s n by simp
  show "begins_with_match s (take (n - 2) (tl s))"
    unfolding body begins_with_match_def using s mb by simp
  show "s = [rune_lt] @ take (n - 2) (tl s) @ [rune_gt] @ drop n s"
    unfolding body rest using s by simp
  assume "begins_with_match s body'"
  then obtain rest' where "s = rune_lt # body' @ rune_gt # rest'" "marker_body body'"
    by (auto simp add: begins_with_match_def)
  from match_prefix_longest [OF assms this] show "length body' \<le> n - 2" by simp
qed

lemma match_prefix_None_begins:
  assumes "match_prefix s = None"
  shows "\<not> begins_with_match s body"
proof
  assume "begins_with_match s body"
  then obtain rest where "s = rune_lt # body @ rune_gt # rest" "marker_body body"
    by (auto simp add: begins_with_match_def)
  from match_prefix_complete [OF this(2), of rest] this(1) assms show False by simp
qed

lemma pieces_scan_pieces: "pieces s (scan_pieces s)"
proof (induction s rule: scan_pieces.induct)
  case 1
  show ?case by (simp add: pieces_Nil)
next
  case (2 c cs)
  show ?case
  proof (cases "match_prefix (c # cs)")
    case None
    from match_prefix_None_begins [OF None] "2.IH"(1) [OF None] None
    show ?thesis by (simp add: pieces_Literal)
  next
    case (Some n)
    note facts = match_prefix_begins [OF Some]
    have "pieces (c # cs) (Marker (take (n - 2) cs) # scan_pieces (drop n (c # cs)))"
    proof (rule pieces_Marker)
      show "begins_with_match (c # cs) (take (n - 2) cs)" using facts(1) by simp
      show "\<forall>body'. begins_with_match (c # cs) body' \<longrightarrow> length body' \<le> length (take (n - 2) cs)"
      proof (intro allI impI)
        fix body' assume b: "begins_with_match (c # cs) body'"
        from facts(3) [OF b] have "length body' \<le> n - 2" .
        moreover from b have "length body' \<le> length cs"
          by (auto simp add: begins_with_match_def)
        ultimately show "length body' \<le> length (take (n - 2) cs)" by simp
      qed
      show "c # cs = [rune_lt] @ take (n - 2) cs @ [rune_gt] @ drop n (c # cs)"
        using facts(2) by auto
      show "pieces (drop n (c # cs)) (scan_pieces (drop n (c # cs)))"
        using "2.IH"(2) [OF Some] .
    qed
    with Some show ?thesis by simp
  qed
qed

lemma pieces_unique:
  assumes "pieces s ps"
  shows "ps = scan_pieces s"
  using assms
proof (induction rule: pieces.induct)
  case pieces_Nil
  show ?case by simp
next
  case (pieces_Literal c cs ps)
  have "match_prefix (c # cs) = None"
  proof (cases "match_prefix (c # cs)")
    case None
    then show ?thesis .
  next
    case (Some n)
    from match_prefix_begins(1) [OF Some] pieces_Literal(1) show ?thesis by blast
  qed
  with pieces_Literal show ?case by simp
next
  case (pieces_Marker s body rest ps)
  from pieces_Marker(1) obtain rest' where
    s': "s = rune_lt # body @ rune_gt # rest'" and mb: "marker_body body"
    by (auto simp add: begins_with_match_def)
  from match_prefix_complete [OF mb, of rest'] s' obtain n where
    Some: "match_prefix s = Some n"
    by auto
  note facts = match_prefix_begins [OF Some]
  from facts(3) [OF pieces_Marker(1)] have le1: "length body \<le> n - 2" .
  from pieces_Marker(2) facts(1) have "length (take (n - 2) (tl s)) \<le> length body" by blast
  moreover from match_prefix_bounds [OF Some] have "n \<le> length s" "4 \<le> n" by simp_all
  ultimately have len: "length body = n - 2" using le1 by simp
  from pieces_Marker(3) have tl: "tl s = body @ rune_gt # rest" by simp
  have body: "take (n - 2) (tl s) = body" unfolding tl using len by simp
  have n: "n = length body + 2" using len \<open>4 \<le> n\<close> by simp
  have rest: "drop n s = rest" using pieces_Marker(3) n by simp
  obtain c cs where s: "s = c # cs" using pieces_Marker(3) by simp
  with body have "take (n - 2) cs = body" by simp
  with Some s rest pieces_Marker(5) show ?case by simp
qed

lemma pieces_iff: "pieces s ps \<longleftrightarrow> ps = scan_pieces s"
  using pieces_scan_pieces pieces_unique by blast

section \<open>The pieces and the matches\<close>

lemma find_all_bodies:
  "map (\<lambda>(start, end, paramStart, paramEnd). slice (A @ s) paramStart paramEnd)
     (find_all (length A) s) =
   marker_bodies (scan_pieces s)"
proof (induction "length A" s arbitrary: A rule: find_all.induct)
  case (1 A)
  then show ?case by simp
next
  case (2 c cs A)
  show ?case
  proof (cases "match_prefix (c # cs)")
    case None
    have len: "length A + 1 = length (A @ [c])" by simp
    from "2.hyps"(1) [OF None len] None show ?thesis by simp
  next
    case (Some n)
    from match_prefix_bounds [OF Some] have n: "4 \<le> n" "n \<le> length (c # cs)" by simp_all
    have len: "length A + n = length (A @ take n (c # cs))"
      using n by simp
    have "slice (A @ c # cs) (length A + 1) (length A + (n - 1)) = slice (c # cs) 1 (n - 1)"
      by (rule slice_append_left)
    also have "\<dots> = take (n - 2) cs"
      using n by (simp add: slice_def numeral_2_eq_2)
    finally have hd: "slice (A @ c # cs) (length A + 1) (length A + n - 1) = take (n - 2) cs"
      using n by simp
    have "map (\<lambda>(start, end, paramStart, paramEnd).
                 slice ((A @ take n (c # cs)) @ drop n (c # cs)) paramStart paramEnd)
            (find_all (length (A @ take n (c # cs))) (drop n (c # cs))) =
          marker_bodies (scan_pieces (drop n (c # cs)))"
      by (rule "2.hyps"(2) [OF Some len])
    then have tl: "map (\<lambda>(start, end, paramStart, paramEnd).
                          slice (A @ c # cs) paramStart paramEnd)
            (find_all (length A + n) (drop n (c # cs))) =
          marker_bodies (scan_pieces (drop n (c # cs)))"
      unfolding len [symmetric] by (simp del: take_Suc_Cons drop_Suc_Cons)
    show ?thesis
      using Some hd tl by (simp del: take_Suc_Cons drop_Suc_Cons)
  qed
qed

lemma marker_decls_declared:
  "marker_decls spell (FindAllStringSubmatchIndex spell) =
     map (\<lambda>body. (declared_name body, declared_defaults body)) (marker_bodies (scan_pieces spell))"
proof -
  have decls: "marker_decls spell ms =
        map (\<lambda>body. (declared_name body, declared_defaults body))
          (map (\<lambda>(start, end, paramStart, paramEnd). slice spell paramStart paramEnd) ms)" for ms
    by (simp add: marker_decls_def extract_declared case_prod_unfold comp_def)
  have bodies: "map (\<lambda>(start, end, paramStart, paramEnd). slice spell paramStart paramEnd)
      (FindAllStringSubmatchIndex spell) = marker_bodies (scan_pieces spell)"
    using find_all_bodies [of "[]" spell] by (simp add: FindAllStringSubmatchIndex_def)
  show ?thesis
    unfolding decls bodies by (rule refl)
qed

text \<open>
  The loop, started behind a part \<open>A\<close> of the spell that is done and a part \<open>B\<close> that the
  search has passed without a match, on the matches of the rest \<open>C\<close>.
\<close>

lemma parse_loop_concat:
  assumes "parse_loop (A @ B @ C) (find_all (length A + length B) C) st = Inr st'"
    and "lastEnd st = length A"
  shows "concat (segments st') @ drop (lastEnd st') (A @ B @ C) =
         concat (segments st) @ B @ concat (map unsubstituted (scan_pieces C))"
  using assms
proof (induction "length A + length B" C arbitrary: A B st rule: find_all.induct)
  case (1 A B)
  then show ?case by simp
next
  case (2 c cs A B)
  let ?spell = "A @ B @ c # cs"
  show ?case
  proof (cases "match_prefix (c # cs)")
    case None
    have pos: "length A + length B + 1 = length A + length (B @ [c])" by simp
    have "parse_loop (A @ (B @ [c]) @ cs) (find_all (length A + length (B @ [c])) cs) st = Inr st'"
      using "2.prems"(1) None by simp
    from "2.hyps"(1) [OF None pos this "2.prems"(2)]
    show ?thesis using None by simp
  next
    case (Some n)
    from match_prefix_bounds [OF Some] have n: "4 \<le> n" "n \<le> length (c # cs)" by simp_all
    let ?pos = "length A + length B"
    let ?m = "(?pos, ?pos + n, ?pos + 1, ?pos + n - 1)"
    obtain name defaultValues where
      ex: "extractParamNameAndDefaults ?spell (?pos + 1) (?pos + n - 1) = (name, defaultValues)"
      by (cases "extractParamNameAndDefaults ?spell (?pos + 1) (?pos + n - 1)") auto
    have "slice ((A @ B) @ c # cs) (length (A @ B) + 1) (length (A @ B) + (n - 1)) =
          slice (c # cs) 1 (n - 1)"
      by (rule slice_append_left)
    also have "\<dots> = take (n - 2) cs"
      using n by (simp add: slice_def numeral_2_eq_2)
    finally have "slice ?spell (?pos + 1) (?pos + n - 1) = take (n - 2) cs"
      using n by simp
    then have name: "name = declared_name (take (n - 2) cs)"
      using ex unfolding extract_declared by simp
    from "2.prems"(1) Some obtain st1 where
      body: "loop_body ?spell st ?m = Inr st1"
      and rest: "parse_loop ?spell (find_all (?pos + n) (drop n (c # cs))) st1 = Inr st'"
      by (auto split: sum.splits)
    let ?segs = "if ?pos > lastEnd st then segments st @ [slice ?spell (lastEnd st) ?pos]
                 else segments st"
    note step = loop_body_Inr [OF body ex refl]
    have "concat ?segs = concat (segments st) @ B"
      using "2.prems"(2) by (simp add: slice_def)
    then have segs1: "concat (segments st1) = concat (segments st) @ B @ name"
      using step(1) by simp
    let ?A' = "A @ B @ take n (c # cs)"
    have pos': "?pos + n = length ?A' + length ([]::gostring)"
      using n by simp
    have spell': "?A' @ [] @ drop n (c # cs) = ?spell"
      by simp
    have "parse_loop (?A' @ [] @ drop n (c # cs))
            (find_all (length ?A' + length ([]::gostring)) (drop n (c # cs))) st1 = Inr st'"
      unfolding spell' pos' [symmetric] using rest .
    moreover have "lastEnd st1 = length ?A'"
      using step(3) n by simp
    ultimately have "concat (segments st') @ drop (lastEnd st') (?A' @ [] @ drop n (c # cs)) =
         concat (segments st1) @ [] @ concat (map unsubstituted (scan_pieces (drop n (c # cs))))"
      by (rule "2.hyps"(2) [OF Some pos'])
    then show ?thesis
      unfolding spell' segs1 using Some name by simp
  qed
qed

lemma scan_pieces_no_match:
  "find_all pos s = [] \<Longrightarrow> scan_pieces s = map Literal s"
proof (induction s arbitrary: pos)
  case Nil
  then show ?case by simp
next
  case (Cons c cs)
  then show ?case by (cases "match_prefix (c # cs)") auto
qed

lemma ParseSpell_concat:
  assumes "ParseSpell spell = Inr ss"
  shows "concat (Segments ss) = concat (map unsubstituted (scan_pieces spell))"
  using assms
proof (cases rule: ParseSpell_Inr_cases)
  case no_match
  from no_match(1) have "scan_pieces spell = map Literal spell"
    unfolding FindAllStringSubmatchIndex_def by (rule scan_pieces_no_match)
  moreover have "concat (map unsubstituted (map Literal s)) = s" for s
    by (induction s) simp_all
  ultimately show ?thesis using no_match by simp
next
  case (matches st)
  have "parse_loop ([] @ [] @ spell)
          (find_all (length ([]::gostring) + length ([]::gostring)) spell)
          \<lparr>segments = [], paramIndices = [], paramMap = Map.empty, paramOrder = [], lastEnd = 0\<rparr> =
        Inr st"
    using matches(2) by (simp add: FindAllStringSubmatchIndex_def)
  from parse_loop_concat [OF this]
  have "concat (segments st) @ drop (lastEnd st) spell =
        concat (map unsubstituted (scan_pieces spell))"
    by simp
  then show ?thesis
    unfolding matches(3) by auto
qed

section \<open>The markers of the specification, counted\<close>

lemma begins_with_spec_marker_code:
  "begins_with_spec_marker s \<longleftrightarrow>
     (case s of
        [] \<Rightarrow> False
      | c # cs \<Rightarrow>
          c = rune_lt \<and>
          (let body = takeWhile (\<lambda>x. x \<noteq> rune_lt \<and> x \<noteq> rune_gt) cs;
               rest = dropWhile (\<lambda>x. x \<noteq> rune_lt \<and> x \<noteq> rune_gt) cs
           in (case rest of [] \<Rightarrow> False | d # _ \<Rightarrow> d = rune_gt) \<and> body \<noteq> [] \<and>
              \<not> perl_space (hd body) \<and> \<not> perl_space (last body)))"
  (is "?lhs \<longleftrightarrow> ?rhs")
proof
  let ?P = "\<lambda>x::rune. x \<noteq> rune_lt \<and> x \<noteq> rune_gt"
  assume ?lhs
  then obtain body rest where s: "s = rune_lt # body @ rune_gt # rest"
    and b: "body \<noteq> []" "list_all ?P body" "\<not> perl_space (hd body)" "\<not> perl_space (last body)"
    by (auto simp add: begins_with_spec_marker_def spec_marker_body_def)
  have "takeWhile ?P (body @ rune_gt # rest) = body"
    using b(2) by (induction body) simp_all
  moreover have "dropWhile ?P (body @ rune_gt # rest) = rune_gt # rest"
    using b(2) by (induction body) simp_all
  ultimately show ?rhs
    using s b by simp
next
  let ?P = "\<lambda>x::rune. x \<noteq> rune_lt \<and> x \<noteq> rune_gt"
  assume r: ?rhs
  then obtain c cs where s: "s = c # cs" by (cases s) auto
  let ?body = "takeWhile ?P cs"
  let ?rest = "dropWhile ?P cs"
  from r s have c: "c = rune_lt" by simp
  from r s have rest: "case ?rest of [] \<Rightarrow> False | d # _ \<Rightarrow> d = rune_gt"
    and b: "?body \<noteq> []" "\<not> perl_space (hd ?body)" "\<not> perl_space (last ?body)"
    by (simp_all add: Let_def)
  from rest obtain rest' where rest': "?rest = rune_gt # rest'"
    by (cases ?rest) auto
  have "cs = ?body @ rune_gt # rest'"
    by (metis takeWhile_dropWhile_id rest')
  then have "s = [rune_lt] @ ?body @ [rune_gt] @ rest'"
    using s c by simp
  moreover have "list_all ?P ?body"
    unfolding list_all_iff using set_takeWhileD by fastforce
  ultimately show ?lhs
    unfolding begins_with_spec_marker_def spec_marker_body_def using b by blast
qed

lemma spec_marker_count_0_iff:
  "spec_marker_count s = 0 \<longleftrightarrow>
     \<not> (\<exists>pre body post. s = pre @ [rune_lt] @ body @ [rune_gt] @ post \<and> spec_marker_body body)"
proof (induction s)
  case Nil
  show ?case by simp
next
  case (Cons c cs)
  have "(\<exists>pre body post. c # cs = pre @ [rune_lt] @ body @ [rune_gt] @ post \<and> spec_marker_body body)
        \<longleftrightarrow> begins_with_spec_marker (c # cs) \<or>
            (\<exists>pre body post. cs = pre @ [rune_lt] @ body @ [rune_gt] @ post \<and> spec_marker_body body)"
    (is "?l \<longleftrightarrow> ?b \<or> ?r")
  proof
    assume ?l
    then obtain pre body post where
      s: "c # cs = pre @ [rune_lt] @ body @ [rune_gt] @ post" and b: "spec_marker_body body"
      by blast
    show "?b \<or> ?r"
    proof (cases pre)
      case Nil
      with s b show ?thesis unfolding begins_with_spec_marker_def by auto
    next
      case (Cons p pre')
      with s have "cs = pre' @ [rune_lt] @ body @ [rune_gt] @ post" by simp
      with b show ?thesis by blast
    qed
  next
    assume "?b \<or> ?r"
    then show ?l
    proof
      assume ?b
      then obtain body rest where "c # cs = [] @ [rune_lt] @ body @ [rune_gt] @ rest"
        "spec_marker_body body"
        unfolding begins_with_spec_marker_def by auto
      then show ?l by blast
    next
      assume ?r
      then obtain pre body post where "cs = pre @ [rune_lt] @ body @ [rune_gt] @ post"
        "spec_marker_body body" by blast
      then have "c # cs = (c # pre) @ [rune_lt] @ body @ [rune_gt] @ post" by simp
      with \<open>spec_marker_body body\<close> show ?l by blast
    qed
  qed
  with Cons show ?case by simp
qed

section \<open>The loop of Reconstruct\<close>

lemma substituted_update:
  assumes "0 \<le> idx" "idx \<notin> set idxs" "paramValues (result ! nat idx) = Some v"
    "nat idx < length result"
  shows "substituted paramValues idxs (result[nat idx := v]) =
         substituted paramValues (idx # idxs) result"
proof -
  have "(if int k \<in> set idxs
         then (case paramValues (result[nat idx := v] ! k) of Some w \<Rightarrow> w
               | None \<Rightarrow> result[nat idx := v] ! k)
         else result[nat idx := v] ! k) =
        (if int k \<in> set (idx # idxs)
         then (case paramValues (result ! k) of Some w \<Rightarrow> w | None \<Rightarrow> result ! k)
         else result ! k)" if "k < length result" for k
  proof (cases "k = nat idx")
    case True
    then have "int k = idx" using assms(1) by simp
    then show ?thesis using assms True by simp
  next
    case False
    then have "int k \<noteq> idx" by auto
    then show ?thesis using False by (auto split: option.splits)
  qed
  then show ?thesis
    by (simp add: substituted_def)
qed

lemma Reconstruct_loop_spec:
  assumes "distinct idxs" "list_all (\<lambda>i. 0 \<le> i \<and> i < int (length result)) idxs"
  shows "Reconstruct_loop paramValues idxs result =
    (case find (\<lambda>i. paramValues (result ! nat i) = None) idxs of
       Some i \<Rightarrow> Returns ([], Some (MissingValue (result ! nat i)))
     | None \<Rightarrow> Returns (Join (substituted paramValues idxs result) [], None))"
  using assms
proof (induction idxs arbitrary: result)
  case Nil
  have "substituted paramValues [] result = result"
    by (simp add: substituted_def map_nth)
  then show ?case by simp
next
  case (Cons idx idxs)
  then have bounds: "0 \<le> idx" "idx < int (length result)" "nat idx < length result"
    and notin: "idx \<notin> set idxs" and dist: "distinct idxs"
    and rest: "list_all (\<lambda>i. 0 \<le> i \<and> i < int (length result)) idxs"
    by auto
  show ?case
  proof (cases "paramValues (result ! nat idx)")
    case None
    then show ?thesis using bounds by simp
  next
    case (Some v)
    let ?r = "result[nat idx := v]"
    have same: "?r ! nat i = result ! nat i" if "i \<in> set idxs" for i
    proof -
      from that rest have "0 \<le> i" by (auto simp: list_all_iff)
      moreover from that notin have "i \<noteq> idx" by auto
      ultimately have "nat i \<noteq> nat idx" using bounds(1) by auto
      then show ?thesis by simp
    qed
    have findeq: "find (\<lambda>i. paramValues (?r ! nat i) = None) idxs =
          find (\<lambda>i. paramValues (result ! nat i) = None) idxs"
      by (rule find_cong) (simp_all add: same)
    have su: "substituted paramValues idxs ?r = substituted paramValues (idx # idxs) result"
      using bounds(1) notin Some bounds(3) by (rule substituted_update)
    have "Reconstruct_loop paramValues (idx # idxs) result = Reconstruct_loop paramValues idxs ?r"
      using Some bounds by simp
    also have "\<dots> =
      (case find (\<lambda>i. paramValues (?r ! nat i) = None) idxs of
         Some i \<Rightarrow> Returns ([], Some (MissingValue (?r ! nat i)))
       | None \<Rightarrow> Returns (Join (substituted paramValues idxs ?r) [], None))"
      using Cons.IH [of ?r] dist rest by simp
    also have "\<dots> =
      (case find (\<lambda>i. paramValues (result ! nat i) = None) idxs of
         Some i \<Rightarrow> Returns ([], Some (MissingValue (result ! nat i)))
       | None \<Rightarrow> Returns (Join (substituted paramValues (idx # idxs) result) [], None))"
    proof (cases "find (\<lambda>i. paramValues (result ! nat i) = None) idxs")
      case None
      then show ?thesis using findeq su by simp
    next
      case (Some i)
      then have "i \<in> set idxs" by (auto simp: find_Some_iff)
      then show ?thesis using findeq Some same by simp
    qed
    finally show ?thesis using Some by simp
  qed
qed

lemma Reconstruct_loop_agree:
  assumes "distinct idxs"
    "\<And>i. i \<in> set idxs \<Longrightarrow> 0 \<le> i \<Longrightarrow> i < int (length result) \<Longrightarrow>
       pv1 (result ! nat i) = pv2 (result ! nat i)"
  shows "Reconstruct_loop pv1 idxs result = Reconstruct_loop pv2 idxs result"
  using assms
proof (induction idxs arbitrary: result)
  case Nil
  then show ?case by simp
next
  case (Cons idx idxs)
  show ?case
  proof (cases "idx < 0 \<or> int (length result) \<le> idx")
    case True
    then show ?thesis by simp
  next
    case False
    then have eq: "pv1 (result ! nat idx) = pv2 (result ! nat idx)"
      using Cons.prems(2) [of idx] by simp
    show ?thesis
    proof (cases "pv2 (result ! nat idx)")
      case None
      then show ?thesis using False eq by simp
    next
      case (Some v)
      let ?r = "result[nat idx := v]"
      have "Reconstruct_loop pv1 idxs ?r = Reconstruct_loop pv2 idxs ?r"
      proof (rule Cons.IH)
        show "distinct idxs" using Cons.prems(1) by simp
      next
        fix i assume i: "i \<in> set idxs" "0 \<le> i" "i < int (length ?r)"
        then have "i \<noteq> idx" using Cons.prems(1) by auto
        then have "nat i \<noteq> nat idx" using i(2) False by auto
        then have "?r ! nat i = result ! nat i" by simp
        then show "pv1 (?r ! nat i) = pv2 (?r ! nat i)"
          using Cons.prems(2) [of i] i by simp
      qed
      then show ?thesis using False eq Some by simp
    qed
  qed
qed

lemma ParseSpell_slots_valid:
  assumes "ParseSpell spell = Inr ss"
  shows "slots_valid ss"
proof -
  from ParseSpell_Inr_facts(5) [OF assms] have "distinct (ParamIndices ss)"
    by (simp add: strict_sorted_iff)
  with ParseSpell_Inr_facts(6) [OF assms] show ?thesis
    by (simp add: slots_valid_def)
qed

text \<open>Reconstruct on what ParseSpell returns.\<close>

lemma Reconstruct_after_ParseSpell:
  assumes "ParseSpell spell = Inr ss"
  shows "Reconstruct ss paramValues =
    (case find (\<lambda>i. paramValues (Segments ss ! nat i) = None) (ParamIndices ss) of
       Some i \<Rightarrow> Returns ([], Some (MissingValue (Segments ss ! nat i)))
     | None \<Rightarrow> Returns (Join (substituted paramValues (ParamIndices ss) (Segments ss)) [], None))"
  using ParseSpell_slots_valid [OF assms]
  unfolding slots_valid_def Reconstruct_def by (intro Reconstruct_loop_spec) simp_all

section \<open>The loop of Reconstruct on the store\<close>

lemma Reconstruct_loop_stored_spec:
  assumes "result < length mem"
    "Reconstruct_loop_stored paramValues idxs result mem = (mem', out)"
  shows "length mem' = length mem \<and> (\<forall>a. a \<noteq> result \<longrightarrow> mem' ! a = mem ! a) \<and>
         out = Reconstruct_loop paramValues idxs (mem ! result)"
  using assms
proof (induction idxs arbitrary: mem)
  case Nil
  then show ?case by auto
next
  case (Cons idx idxs)
  show ?case
  proof (cases "idx < 0 \<or> int (length (mem ! result)) \<le> idx")
    case True
    then show ?thesis using Cons.prems by auto
  next
    case False
    show ?thesis
    proof (cases "paramValues (mem ! result ! nat idx)")
      case None
      then show ?thesis using False Cons.prems by auto
    next
      case (Some v)
      let ?m = "mem[result := (mem ! result)[nat idx := v]]"
      have "Reconstruct_loop_stored paramValues idxs result ?m = (mem', out)"
        using Cons.prems(2) False Some by simp
      moreover have "result < length ?m" using Cons.prems(1) by simp
      ultimately have "length mem' = length ?m \<and> (\<forall>a. a \<noteq> result \<longrightarrow> mem' ! a = ?m ! a) \<and>
         out = Reconstruct_loop paramValues idxs (?m ! result)"
        using Cons.IH by blast
      then show ?thesis
        using False Some Cons.prems(1) by simp
    qed
  qed
qed

lemma Reconstruct_stored_spec:
  assumes "Segments_addr ss < length mem"
    "Reconstruct_stored mem ss paramValues = (mem', ss', out)"
  shows "ss' = ss \<and> length mem' = Suc (length mem) \<and> (\<forall>a < length mem. mem' ! a = mem ! a) \<and>
         out = Reconstruct (load mem ss) paramValues"
proof -
  let ?m = "mem @ [mem ! Segments_addr ss]"
  from assms(2) have ss: "ss' = ss"
    and loop: "Reconstruct_loop_stored paramValues (ParamIndices_stored ss) (length mem) ?m = (mem', out)"
    by (auto simp: Reconstruct_stored_def make_copy_def split: prod.splits)
  have "length mem < length ?m" by simp
  from Reconstruct_loop_stored_spec [OF this loop]
  have "length mem' = length ?m" "\<forall>a. a \<noteq> length mem \<longrightarrow> mem' ! a = ?m ! a"
    "out = Reconstruct_loop paramValues (ParamIndices_stored ss) (?m ! length mem)"
    by blast+
  then show ?thesis
    using ss by (auto simp: Reconstruct_def load_def nth_append)
qed

lemma Reconstruct_repeatedly_same:
  assumes "Segments_addr ss < length mem"
  shows "Reconstruct_repeatedly n mem ss paramValues =
         replicate n (Reconstruct (load mem ss) paramValues)"
  using assms
proof (induction n arbitrary: mem)
  case 0
  then show ?case by simp
next
  case (Suc n)
  obtain mem' ss' out where call: "Reconstruct_stored mem ss paramValues = (mem', ss', out)"
    by (cases "Reconstruct_stored mem ss paramValues") auto
  from Reconstruct_stored_spec [OF Suc.prems call]
  have ss: "ss' = ss" and len: "length mem' = Suc (length mem)"
    and same: "\<forall>a < length mem. mem' ! a = mem ! a"
    and out: "out = Reconstruct (load mem ss) paramValues"
    by blast+
  have "Segments_addr ss < length mem'" using Suc.prems len by simp
  then have "Reconstruct_repeatedly n mem' ss paramValues =
      replicate n (Reconstruct (load mem' ss) paramValues)"
    by (rule Suc.IH)
  moreover have "load mem' ss = load mem ss"
    using same Suc.prems by (simp add: load_def)
  ultimately show ?case using call ss out by simp
qed

section \<open>The examples, evaluated\<close>

lemmas eval_defs =
  runes_def perl_space_def IsSpace_def TrimSpace_def slice_def SplitN_2_def
  extractParamNameAndDefaults_def FindAllStringSubmatchIndex_def

lemma find_all_dup1:
  "FindAllStringSubmatchIndex (runes ''echo <name=World> and again <name=Everyone>'') =
     [(5, 17, 6, 16), (28, 43, 29, 42)]"
  by (simp add: eval_defs)

lemma extract_dup1_first:
  "extractParamNameAndDefaults (runes ''echo <name=World> and again <name=Everyone>'') 6 16 =
     (runes ''name'', [runes ''World''])"
  by (simp add: eval_defs)

lemma extract_dup1_second:
  "extractParamNameAndDefaults (runes ''echo <name=World> and again <name=Everyone>'') 29 42 =
     (runes ''name'', [runes ''Everyone''])"
  by (simp add: eval_defs)

lemma find_all_dup2:
  "FindAllStringSubmatchIndex (runes ''echo <name=World> and again <name=Everyone;All>'') =
     [(5, 17, 6, 16), (28, 47, 29, 46)]"
  by (simp add: eval_defs)

lemma extract_dup2_first:
  "extractParamNameAndDefaults (runes ''echo <name=World> and again <name=Everyone;All>'') 6 16 =
     (runes ''name'', [runes ''World''])"
  by (simp add: eval_defs)

lemma extract_dup2_second:
  "extractParamNameAndDefaults (runes ''echo <name=World> and again <name=Everyone;All>'') 29 46 =
     (runes ''name'', [runes ''Everyone'', runes ''All''])"
  by (simp add: eval_defs)

lemma ParseSpell_dup2:
  "ParseSpell (runes ''echo <name=World> and again <name=Everyone;All>'') =
     Inl (DuplicateDefault (runes ''name''))"
  unfolding ParseSpell_def find_all_dup2
  by (simp add: loop_body_def extract_dup2_first extract_dup2_second)

lemma find_all_two_runes: "FindAllStringSubmatchIndex (runes ''<ab>'') = [(0, 4, 1, 3)]"
  by (simp add: eval_defs)

lemma extract_two_runes:
  "extractParamNameAndDefaults (runes ''<ab>'') (Suc 0) 3 = (runes ''ab'', [])"
  by (simp add: eval_defs)

lemma ParseSpell_two_runes:
  "ParseSpell (runes ''<ab>'') =
     Inr \<lparr>Segments = [runes ''ab''], ParamIndices = [0],
          Params = [\<lparr>Name = runes ''ab'', DefaultValues = []\<rparr>]\<rparr>"
  unfolding ParseSpell_def find_all_two_runes
  by (simp add: loop_body_def extract_two_runes) (simp add: runes_def)

lemma find_all_single: "FindAllStringSubmatchIndex (runes ''<a>'') = []"
  by (simp add: eval_defs)

lemma find_all_trailing_gt: "FindAllStringSubmatchIndex (runes ''<ab>>'') = [(0, 5, 1, 4)]"
  by (simp add: eval_defs)

lemma extract_trailing_gt:
  "extractParamNameAndDefaults (runes ''<ab>>'') (Suc 0) 4 = (runes ''ab>'', [])"
  by (simp add: eval_defs)

lemma name_plain: "plain_body (runes ''name'')"
  by (simp add: plain_body_def runes_def perl_space_def)

lemma find_all_defaults: "FindAllStringSubmatchIndex (runes ''<name=a; b>'') = [(0, 11, 1, 10)]"
  by (simp add: eval_defs)

lemma extract_defaults:
  "extractParamNameAndDefaults (runes ''<name=a; b>'') (Suc 0) 10 =
     (runes ''name'', [runes ''a'', runes '' b''])"
  by (simp add: eval_defs)

lemma find_all_hello: "FindAllStringSubmatchIndex (runes ''echo Hello World'') = []"
  by (simp add: eval_defs)

lemma find_all_repeat:
  "FindAllStringSubmatchIndex (runes ''echo <name> and again <name>'') =
     [(5, 11, 6, 10), (22, 28, 23, 27)]"
  by (simp add: eval_defs)

lemma extract_repeat_first:
  "extractParamNameAndDefaults (runes ''echo <name> and again <name>'') 6 10 =
     (runes ''name'', [])"
  by (simp add: eval_defs)

lemma extract_repeat_second:
  "extractParamNameAndDefaults (runes ''echo <name> and again <name>'') 23 27 =
     (runes ''name'', [])"
  by (simp add: eval_defs)

lemma ParseSpell_repeat:
  "ParseSpell (runes ''echo <name> and again <name>'') =
     Inr \<lparr>Segments = [runes ''echo '', runes ''name'', runes '' and again '', runes ''name''],
          ParamIndices = [1, 3],
          Params = [\<lparr>Name = runes ''name'', DefaultValues = []\<rparr>]\<rparr>"
  unfolding ParseSpell_def find_all_repeat
  by (simp add: loop_body_def extract_repeat_first extract_repeat_second)
    (simp add: runes_def slice_def)

lemma Reconstruct_repeat:
  "Reconstruct
     \<lparr>Segments = [runes ''echo '', runes ''name'', runes '' and again '', runes ''name''],
      ParamIndices = [1, 3],
      Params = [\<lparr>Name = runes ''name'', DefaultValues = []\<rparr>]\<rparr>
     [runes ''name'' \<mapsto> runes ''X''] =
   Returns (runes ''echo X and again X'', None)"
  by (simp add: Reconstruct_def runes_def)

lemma Reconstruct_stored_example:
  "Reconstruct_stored [[runes ''echo '', runes ''name'']]
     \<lparr>Segments_addr = 0, ParamIndices_stored = [1], Params_stored = []\<rparr>
     [runes ''name'' \<mapsto> runes ''Alice''] =
   ([[runes ''echo '', runes ''name''], [runes ''echo '', runes ''Alice'']],
    \<lparr>Segments_addr = 0, ParamIndices_stored = [1], Params_stored = []\<rparr>,
    Returns (runes ''echo Alice'', None))"
  by (simp add: Reconstruct_stored_def make_copy_def runes_def)

section \<open>The test cases of the repository\<close>

text \<open>
  The spells of \<^verbatim>\<open>TestParseSpell\<close> and the segment sequences of
  \<^verbatim>\<open>TestSpellSegmentsSubstitute\<close>, with the results the tests expect.
\<close>

lemma find_all_test_single:
  "FindAllStringSubmatchIndex (runes ''echo <name>'') =
     [(5, 11, 6, 10)]"
  by (simp add: eval_defs)

lemma extract_test_single_1:
  "extractParamNameAndDefaults (runes ''echo <name>'') 6 10 =
     (runes ''name'', [])"
  by (simp add: eval_defs)

lemma ParseSpell_test_single:
  "ParseSpell (runes ''echo <name>'') =
     Inr \<lparr>Segments = [runes ''echo '', runes ''name''],
          ParamIndices = [1],
          Params = [\<lparr>Name = runes ''name'', DefaultValues = []\<rparr>]\<rparr>"
  unfolding ParseSpell_def find_all_test_single
  by (simp add: loop_body_def extract_test_single_1)
    (simp add: runes_def slice_def)

lemma find_all_test_default:
  "FindAllStringSubmatchIndex (runes ''echo <name=World>'') =
     [(5, 17, 6, 16)]"
  by (simp add: eval_defs)

lemma extract_test_default_1:
  "extractParamNameAndDefaults (runes ''echo <name=World>'') 6 16 =
     (runes ''name'', [runes ''World''])"
  by (simp add: eval_defs)

lemma ParseSpell_test_default:
  "ParseSpell (runes ''echo <name=World>'') =
     Inr \<lparr>Segments = [runes ''echo '', runes ''name''],
          ParamIndices = [1],
          Params = [\<lparr>Name = runes ''name'', DefaultValues = [runes ''World'']\<rparr>]\<rparr>"
  unfolding ParseSpell_def find_all_test_default
  by (simp add: loop_body_def extract_test_default_1)
    (simp add: runes_def slice_def)

lemma find_all_test_two_params:
  "FindAllStringSubmatchIndex (runes ''cp <source=file.txt> <destination=backup.txt>'') =
     [(3, 20, 4, 19), (21, 45, 22, 44)]"
  by (simp add: eval_defs)

lemma extract_test_two_params_1:
  "extractParamNameAndDefaults (runes ''cp <source=file.txt> <destination=backup.txt>'') 4 19 =
     (runes ''source'', [runes ''file.txt''])"
  by (simp add: eval_defs)

lemma extract_test_two_params_2:
  "extractParamNameAndDefaults (runes ''cp <source=file.txt> <destination=backup.txt>'') 22 44 =
     (runes ''destination'', [runes ''backup.txt''])"
  by (simp add: eval_defs)

lemma ParseSpell_test_two_params:
  "ParseSpell (runes ''cp <source=file.txt> <destination=backup.txt>'') =
     Inr \<lparr>Segments = [runes ''cp '', runes ''source'', runes '' '', runes ''destination''],
          ParamIndices = [1, 3],
          Params = [\<lparr>Name = runes ''source'', DefaultValues = [runes ''file.txt'']\<rparr>, \<lparr>Name = runes ''destination'', DefaultValues = [runes ''backup.txt'']\<rparr>]\<rparr>"
  unfolding ParseSpell_def find_all_test_two_params
  by (simp add: loop_body_def extract_test_two_params_1 extract_test_two_params_2)
    (simp add: runes_def slice_def)

lemma find_all_test_two_defaults:
  "FindAllStringSubmatchIndex (runes ''mv <oldname=file1.txt;file_old.txt> <newname=file2.txt;file_new.txt>'') =
     [(3, 35, 4, 34), (36, 68, 37, 67)]"
  by (simp add: eval_defs)

lemma extract_test_two_defaults_1:
  "extractParamNameAndDefaults (runes ''mv <oldname=file1.txt;file_old.txt> <newname=file2.txt;file_new.txt>'') 4 34 =
     (runes ''oldname'', [runes ''file1.txt'', runes ''file_old.txt''])"
  by (simp add: eval_defs)

lemma extract_test_two_defaults_2:
  "extractParamNameAndDefaults (runes ''mv <oldname=file1.txt;file_old.txt> <newname=file2.txt;file_new.txt>'') 37 67 =
     (runes ''newname'', [runes ''file2.txt'', runes ''file_new.txt''])"
  by (simp add: eval_defs)

lemma ParseSpell_test_two_defaults:
  "ParseSpell (runes ''mv <oldname=file1.txt;file_old.txt> <newname=file2.txt;file_new.txt>'') =
     Inr \<lparr>Segments = [runes ''mv '', runes ''oldname'', runes '' '', runes ''newname''],
          ParamIndices = [1, 3],
          Params = [\<lparr>Name = runes ''oldname'', DefaultValues = [runes ''file1.txt'', runes ''file_old.txt'']\<rparr>, \<lparr>Name = runes ''newname'', DefaultValues = [runes ''file2.txt'', runes ''file_new.txt'']\<rparr>]\<rparr>"
  unfolding ParseSpell_def find_all_test_two_defaults
  by (simp add: loop_body_def extract_test_two_defaults_1 extract_test_two_defaults_2)
    (simp add: runes_def slice_def)

lemma find_all_test_default_first_only:
  "FindAllStringSubmatchIndex (runes ''echo <name=World> and again <name>'') =
     [(5, 17, 6, 16), (28, 34, 29, 33)]"
  by (simp add: eval_defs)

lemma extract_test_default_first_only_1:
  "extractParamNameAndDefaults (runes ''echo <name=World> and again <name>'') 6 16 =
     (runes ''name'', [runes ''World''])"
  by (simp add: eval_defs)

lemma extract_test_default_first_only_2:
  "extractParamNameAndDefaults (runes ''echo <name=World> and again <name>'') 29 33 =
     (runes ''name'', [])"
  by (simp add: eval_defs)

lemma ParseSpell_test_default_first_only:
  "ParseSpell (runes ''echo <name=World> and again <name>'') =
     Inr \<lparr>Segments = [runes ''echo '', runes ''name'', runes '' and again '', runes ''name''],
          ParamIndices = [1, 3],
          Params = [\<lparr>Name = runes ''name'', DefaultValues = [runes ''World'']\<rparr>]\<rparr>"
  unfolding ParseSpell_def find_all_test_default_first_only
  by (simp add: loop_body_def extract_test_default_first_only_1 extract_test_default_first_only_2)
    (simp add: runes_def slice_def)

lemma find_all_test_trailing:
  "FindAllStringSubmatchIndex (runes ''echo <name> trailing segment test'') =
     [(5, 11, 6, 10)]"
  by (simp add: eval_defs)

lemma extract_test_trailing_1:
  "extractParamNameAndDefaults (runes ''echo <name> trailing segment test'') 6 10 =
     (runes ''name'', [])"
  by (simp add: eval_defs)

lemma ParseSpell_test_trailing:
  "ParseSpell (runes ''echo <name> trailing segment test'') =
     Inr \<lparr>Segments = [runes ''echo '', runes ''name'', runes '' trailing segment test''],
          ParamIndices = [1],
          Params = [\<lparr>Name = runes ''name'', DefaultValues = []\<rparr>]\<rparr>"
  unfolding ParseSpell_def find_all_test_trailing
  by (simp add: loop_body_def extract_test_trailing_1)
    (simp add: runes_def slice_def)

lemma Reconstruct_test_no_parameters:
  "Reconstruct \<lparr>Segments = [runes ''echo Hello World''], ParamIndices = [], Params = []\<rparr>
     Map.empty =
   Returns (runes ''echo Hello World'', None)"
  by (simp add: Reconstruct_def)

lemma Reconstruct_test_single_parameter:
  "Reconstruct
     \<lparr>Segments = [runes ''echo '', runes ''name''], ParamIndices = [1],
      Params = [\<lparr>Name = runes ''name'', DefaultValues = [runes ''World'']\<rparr>]\<rparr>
     [runes ''name'' \<mapsto> runes ''Alice''] =
   Returns (runes ''echo Alice'', None)"
  by (simp add: Reconstruct_def runes_def)

lemma Reconstruct_test_multiple_parameters:
  "Reconstruct
     \<lparr>Segments = [runes ''cp '', runes ''source'', runes '' '', runes ''destination''],
      ParamIndices = [1, 3],
      Params = [\<lparr>Name = runes ''source'', DefaultValues = [runes ''file.txt'']\<rparr>,
                \<lparr>Name = runes ''destination'', DefaultValues = [runes ''backup.txt'']\<rparr>]\<rparr>
     [runes ''source'' \<mapsto> runes ''data.csv'', runes ''destination'' \<mapsto> runes ''data_backup.csv''] =
   Returns (runes ''cp data.csv data_backup.csv'', None)"
  by (simp add: Reconstruct_def runes_def)

lemma Reconstruct_test_missing_parameter_value:
  "Reconstruct
     \<lparr>Segments = [runes ''mv '', runes ''oldname'', runes '' '', runes ''newname''],
      ParamIndices = [1, 3],
      Params = [\<lparr>Name = runes ''oldname'', DefaultValues = [runes ''file1.txt'']\<rparr>,
                \<lparr>Name = runes ''newname'', DefaultValues = [runes ''file2.txt'']\<rparr>]\<rparr>
     [runes ''oldname'' \<mapsto> runes ''document.txt''] =
   Returns ([], Some (MissingValue (runes ''newname'')))"
  by (simp add: Reconstruct_def runes_def)

section \<open>Further examples, evaluated\<close>

lemma find_all_redirect:
  "FindAllStringSubmatchIndex (runes ''sort <in >>out'') = [(5, 11, 6, 10)]"
  by (simp add: eval_defs)

lemma extract_redirect:
  "extractParamNameAndDefaults (runes ''sort <in >>out'') 6 10 = (runes ''in >'', [])"
  by (simp add: eval_defs)

lemma ParseSpell_redirect:
  "ParseSpell (runes ''sort <in >>out'') =
     Inr \<lparr>Segments = [runes ''sort '', runes ''in >'', runes ''out''],
          ParamIndices = [1],
          Params = [\<lparr>Name = runes ''in >'', DefaultValues = []\<rparr>]\<rparr>"
  unfolding ParseSpell_def find_all_redirect
  by (simp add: loop_body_def extract_redirect)
    (simp add: runes_def slice_def)

lemma spec_marker_count_redirect: "spec_marker_count (runes ''sort <in >>out'') = 0"
  by (simp add: begins_with_spec_marker_code runes_def perl_space_def)

lemma find_all_two_single_runes: "FindAllStringSubmatchIndex (runes ''<a> <a>'') = []"
  by (simp add: eval_defs)

lemma ParseSpell_two_single_runes:
  "ParseSpell (runes ''<a> <a>'') =
     Inr \<lparr>Segments = [runes ''<a> <a>''], ParamIndices = [], Params = []\<rparr>"
  unfolding ParseSpell_def find_all_two_single_runes by simp

lemma spec_marker_count_two_single_runes: "spec_marker_count (runes ''<a> <a>'') = 2"
  by (simp add: begins_with_spec_marker_code runes_def perl_space_def)

lemma scan_pieces_default_first_only:
  "scan_pieces (runes ''echo <name=World> and again <name>'') =
     map Literal (runes ''echo '') @ [Marker (runes ''name=World'')] @
     map Literal (runes '' and again '') @ [Marker (runes ''name'')]"
  by (simp add: eval_defs)

lemma declared_name_World: "declared_name (runes ''name=World'') = runes ''name''"
  by (simp add: declared_name_def stripped_def runes_def IsSpace_def)

lemma declared_defaults_World: "declared_defaults (runes ''name=World'') = [runes ''World'']"
  by (simp add: declared_defaults_def stripped_def runes_def IsSpace_def)

lemma declared_name_name: "declared_name (runes ''name'') = runes ''name''"
  by (simp add: declared_name_def stripped_def runes_def IsSpace_def)

lemma declared_defaults_name: "declared_defaults (runes ''name'') = []"
  by (simp add: declared_defaults_def stripped_def runes_def IsSpace_def)

lemma declared_spaces:
  "declared_name (runes ''name = a; b;'') = runes ''name'' \<and>
   declared_defaults (runes ''name = a; b;'') = [runes '' a'', runes '' b'', runes '''']"
  by (simp add: declared_name_def declared_defaults_def stripped_def runes_def IsSpace_def)

section \<open>C1: a repeated name with default values\<close>

text \<open>
  C1.  The spec has ParseSpell fail with a DuplicateDefault error whenever a name that
  was seen before comes again in a marker that declares one or more default values, as
  in \<^verbatim>\<open>echo <name=World> and again <name=Everyone>\<close>, and so does the test of the
  repository for that spell.  The source tests \<^verbatim>\<open>len(defaultValues) > 1\<close>: a second
  marker with exactly one default value is accepted, and ParseSpell returns a segment
  sequence and no error on that spell; the error comes from two default values on.
\<close>

theorem ParseSpell_duplicate_single_default_accepted:
  "ParseSpell (runes ''echo <name=World> and again <name=Everyone>'') =
     Inr \<lparr>Segments = [runes ''echo '', runes ''name'', runes '' and again '', runes ''name''],
          ParamIndices = [1, 3],
          Params = [\<lparr>Name = runes ''name'', DefaultValues = [runes ''World'']\<rparr>]\<rparr> \<and>
   ParseSpell (runes ''echo <name=World> and again <name=Everyone;All>'') =
     Inl (DuplicateDefault (runes ''name''))"
proof -
  have "ParseSpell (runes ''echo <name=World> and again <name=Everyone>'') =
     Inr \<lparr>Segments = [runes ''echo '', runes ''name'', runes '' and again '', runes ''name''],
          ParamIndices = [1, 3],
          Params = [\<lparr>Name = runes ''name'', DefaultValues = [runes ''World'']\<rparr>]\<rparr>"
    unfolding ParseSpell_def find_all_dup1
    by (simp add: loop_body_def extract_dup1_first extract_dup1_second)
      (simp add: runes_def slice_def)
  with ParseSpell_dup2 show ?thesis by simp
qed

section \<open>C2: the marker grammar\<close>

text \<open>
  C2, as the spec has it, fails: the pattern asks for two runes in the body, so
  \<^verbatim>\<open><a>\<close> is no marker and stays text; and its first and last rune may be any rune that
  is not in \<^verbatim>\<open>\s\<close>, so \<^verbatim>\<open><ab>>\<close> is one marker whose body \<^verbatim>\<open>ab>\<close> has a \<^verbatim>\<open>>\<close> in it.
\<close>

theorem ParseSpell_marker_grammar_counterexample:
  "ParseSpell (runes ''<a>'') =
     Inr \<lparr>Segments = [runes ''<a>''], ParamIndices = [], Params = []\<rparr> \<and>
   ParseSpell (runes ''<ab>>'') =
     Inr \<lparr>Segments = [runes ''ab>''], ParamIndices = [0],
          Params = [\<lparr>Name = runes ''ab>'', DefaultValues = []\<rparr>]\<rparr>"
proof -
  have "ParseSpell (runes ''<a>'') =
     Inr \<lparr>Segments = [runes ''<a>''], ParamIndices = [], Params = []\<rparr>"
    unfolding ParseSpell_def find_all_single by simp
  moreover have "ParseSpell (runes ''<ab>>'') =
     Inr \<lparr>Segments = [runes ''ab>''], ParamIndices = [0],
          Params = [\<lparr>Name = runes ''ab>'', DefaultValues = []\<rparr>]\<rparr>"
    unfolding ParseSpell_def find_all_trailing_gt
    by (simp add: loop_body_def extract_trailing_gt) (simp add: runes_def)
  ultimately show ?thesis by simp
qed

text \<open>
  C2, amended.  A part \<^verbatim>\<open><\<close> body \<^verbatim>\<open>>\<close> of the spell whose body has two or more runes, none
  of them \<^verbatim>\<open><\<close> or \<^verbatim>\<open>>\<close>, and neither begins nor ends with a rune of \<^verbatim>\<open>\s\<close>, and which
  has no \<^verbatim>\<open><\<close> right before it and no \<^verbatim>\<open>>\<close> right behind it, is found as a marker with
  that body, and when ParseSpell succeeds the name the body declares is at a slot and in
  Params; \<^verbatim>\<open><ab>\<close> parses as a parameter named \<^verbatim>\<open>ab\<close>.  The body of every marker that is found has two or more runes, and \<^verbatim>\<open><\<close> and
  \<^verbatim>\<open>>\<close> can only be its first or its last rune.
\<close>

theorem ParseSpell_marker_grammar:
  "(plain_body body \<and> (pre = [] \<or> last pre \<noteq> rune_lt) \<and> (post = [] \<or> hd post \<noteq> rune_gt) \<longrightarrow>
      (length pre, length pre + length body + 2, length pre + 1, length pre + length body + 1)
        \<in> set (FindAllStringSubmatchIndex (pre @ [rune_lt] @ body @ [rune_gt] @ post)) \<and>
      (\<forall>ss. ParseSpell (pre @ [rune_lt] @ body @ [rune_gt] @ post) = Inr ss \<longrightarrow>
         fst (extractParamNameAndDefaults body 0 (length body))
           \<in> set (map (\<lambda>i. Segments ss ! nat i) (ParamIndices ss)) \<and>
         fst (extractParamNameAndDefaults body 0 (length body)) \<in> Name ` set (Params ss))) \<and>
   ParseSpell (runes ''<ab>'') =
     Inr \<lparr>Segments = [runes ''ab''], ParamIndices = [0],
          Params = [\<lparr>Name = runes ''ab'', DefaultValues = []\<rparr>]\<rparr> \<and>
   ((start, end, paramStart, paramEnd) \<in> set (FindAllStringSubmatchIndex spell) \<longrightarrow>
      paramStart = start + 1 \<and> end = paramEnd + 1 \<and>
      2 \<le> length (slice spell paramStart paramEnd) \<and>
      list_all (\<lambda>c. c \<noteq> rune_lt \<and> c \<noteq> rune_gt) (butlast (tl (slice spell paramStart paramEnd))))"
proof -
  let ?s = "pre @ [rune_lt] @ body @ [rune_gt] @ post"
  let ?m = "(length pre, length pre + length body + 2, length pre + 1, length pre + length body + 1)"
  let ?name = "fst (extractParamNameAndDefaults body 0 (length body))"
  have found: "?m \<in> set (FindAllStringSubmatchIndex ?s)"
    if "plain_body body" "pre = [] \<or> last pre \<noteq> rune_lt" "post = [] \<or> hd post \<noteq> rune_gt"
    using find_all_member [OF that(1,3,2), of 0] by (simp add: FindAllStringSubmatchIndex_def)
  have parsed: "?name \<in> set (map (\<lambda>i. Segments ss ! nat i) (ParamIndices ss)) \<and>
      ?name \<in> Name ` set (Params ss)"
    if m: "?m \<in> set (FindAllStringSubmatchIndex ?s)" and ok: "ParseSpell ?s = Inr ss" for ss
  proof -
    let ?decls = "marker_decls ?s (FindAllStringSubmatchIndex ?s)"
    from m have "extractParamNameAndDefaults ?s (length pre + 1) (length pre + length body + 1)
        \<in> set ?decls"
      unfolding marker_decls_def by force
    then have "extractParamNameAndDefaults body 0 (length body) \<in> set ?decls"
      unfolding extract_marker_body .
    then have "?name \<in> set (map fst ?decls)" by force
    then have "?name \<in> set (map (\<lambda>i. Segments ss ! nat i) (ParamIndices ss))"
      and "?name \<in> set (map Name (Params ss))"
      unfolding ParseSpell_Inr_facts(2,4) [OF ok] first_occurrences_set by simp_all
    then show ?thesis by simp
  qed
  have shape: "paramStart = start + 1 \<and> end = paramEnd + 1 \<and>
      2 \<le> length (slice spell paramStart paramEnd) \<and>
      list_all (\<lambda>c. c \<noteq> rune_lt \<and> c \<noteq> rune_gt) (butlast (tl (slice spell paramStart paramEnd)))"
    if "(start, end, paramStart, paramEnd) \<in> set (FindAllStringSubmatchIndex spell)"
    using find_all_matches [of start "end" paramStart paramEnd "[]" spell] that
    by (auto simp: FindAllStringSubmatchIndex_def marker_body_def)
  from found parsed ParseSpell_two_runes shape show ?thesis by blast
qed

theorem ParseSpell_marker_grammar_witness:
  "(5, 11, 6, 10) \<in> set (FindAllStringSubmatchIndex (runes ''echo <name> now''))"
proof -
  let ?pre = "runes ''echo ''" and ?body = "runes ''name''" and ?post = "runes '' now''"
  have "?pre = [] \<or> last ?pre \<noteq> rune_lt" and "?post = [] \<or> hd ?post \<noteq> rune_gt"
    by (simp_all add: runes_def)
  with name_plain
  have "(length ?pre, length ?pre + length ?body + 2, length ?pre + 1, length ?pre + length ?body + 1)
      \<in> set (FindAllStringSubmatchIndex (?pre @ [rune_lt] @ ?body @ [rune_gt] @ ?post))"
    using ParseSpell_marker_grammar [of ?body ?pre ?post] by blast
  moreover have "length ?pre = 5" "length ?body = 4"
    by (simp_all add: runes_def)
  moreover have "?pre @ [rune_lt] @ ?body @ [rune_gt] @ ?post = runes ''echo <name> now''"
    by (simp add: runes_def)
  ultimately show ?thesis by simp
qed

section \<open>C3: names and default values\<close>

text \<open>
  C3, as the spec has it, fails: the default values are the pieces between the
  semicolons as they stand, and \<^verbatim>\<open><name=a; b>\<close> gives the second default value with
  its leading space.
\<close>

theorem ParseSpell_default_values_counterexample:
  "ParseSpell (runes ''<name=a; b>'') =
     Inr \<lparr>Segments = [runes ''name''], ParamIndices = [0],
          Params = [\<lparr>Name = runes ''name'', DefaultValues = [runes ''a'', runes '' b'']\<rparr>]\<rparr> \<and>
   IsSpace (hd (runes '' b''))"
proof -
  have "ParseSpell (runes ''<name=a; b>'') =
     Inr \<lparr>Segments = [runes ''name''], ParamIndices = [0],
          Params = [\<lparr>Name = runes ''name'', DefaultValues = [runes ''a'', runes '' b'']\<rparr>]\<rparr>"
    unfolding ParseSpell_def find_all_defaults
    by (simp add: loop_body_def extract_defaults) (simp add: runes_def)
  moreover have "IsSpace (hd (runes '' b''))"
    by (simp add: runes_def IsSpace_def)
  ultimately show ?thesis by simp
qed

text \<open>
  C3, amended.  For every marker, the body is trimmed of surrounding whitespace as a
  whole and cut at its first \<^verbatim>\<open>=\<close>; the name is the part before it, trimmed, so the
  recorded name has no whitespace at either end.  Without a \<^verbatim>\<open>=\<close> there are no default
  values; with one, the default values are the pieces of the part behind it between
  its semicolons, in order and as they stand: joined with \<^verbatim>\<open>;\<close> they give that part
  back, and no piece is trimmed.
\<close>

theorem extractParamNameAndDefaults_splits:
  "extractParamNameAndDefaults spell paramStart paramEnd = (name, defaultValues) \<longrightarrow>
     name = TrimSpace (takeWhile (\<lambda>c. c \<noteq> rune_eq) (TrimSpace (slice spell paramStart paramEnd))) \<and>
     (name = [] \<or> (\<not> IsSpace (hd name) \<and> \<not> IsSpace (last name))) \<and>
     (rune_eq \<notin> set (TrimSpace (slice spell paramStart paramEnd)) \<longrightarrow> defaultValues = []) \<and>
     (rune_eq \<in> set (TrimSpace (slice spell paramStart paramEnd)) \<longrightarrow>
        defaultValues \<noteq> [] \<and>
        Join defaultValues [rune_semicolon] =
          tl (dropWhile (\<lambda>c. c \<noteq> rune_eq) (TrimSpace (slice spell paramStart paramEnd))) \<and>
        list_all (\<lambda>d. rune_semicolon \<notin> set d) defaultValues)"
proof
  let ?body = "TrimSpace (slice spell paramStart paramEnd)"
  assume ex: "extractParamNameAndDefaults spell paramStart paramEnd = (name, defaultValues)"
  have name: "name = TrimSpace (takeWhile (\<lambda>c. c \<noteq> rune_eq) ?body)"
  proof (cases "rune_eq \<in> set ?body")
    case True
    then show ?thesis
      using ex by (auto simp: extractParamNameAndDefaults_def SplitN_2_def Let_def)
  next
    case False
    then have tw: "takeWhile (\<lambda>c. c \<noteq> rune_eq) ?body = ?body"
      by (auto simp: takeWhile_eq_all_conv)
    have "name = TrimSpace ?body"
      using ex False by (auto simp: extractParamNameAndDefaults_def SplitN_2_def Let_def)
    then show ?thesis unfolding tw .
  qed
  have trimmed: "name = [] \<or> (\<not> IsSpace (hd name) \<and> \<not> IsSpace (last name))"
    unfolding name by (rule TrimSpace_trimmed)
  have none: "defaultValues = []" if "rune_eq \<notin> set ?body"
    using ex that by (auto simp: extractParamNameAndDefaults_def SplitN_2_def Let_def)
  have some: "defaultValues \<noteq> [] \<and>
        Join defaultValues [rune_semicolon] = tl (dropWhile (\<lambda>c. c \<noteq> rune_eq) ?body) \<and>
        list_all (\<lambda>d. rune_semicolon \<notin> set d) defaultValues" if "rune_eq \<in> set ?body"
  proof -
    have "defaultValues = Split (tl (dropWhile (\<lambda>c. c \<noteq> rune_eq) ?body)) rune_semicolon"
      using ex that by (auto simp: extractParamNameAndDefaults_def SplitN_2_def Let_def)
    then show ?thesis
      using Split_not_Nil Join_Split Split_pieces by simp
  qed
  from name trimmed none some
  show "name = TrimSpace (takeWhile (\<lambda>c. c \<noteq> rune_eq) ?body) \<and>
     (name = [] \<or> (\<not> IsSpace (hd name) \<and> \<not> IsSpace (last name))) \<and>
     (rune_eq \<notin> set ?body \<longrightarrow> defaultValues = []) \<and>
     (rune_eq \<in> set ?body \<longrightarrow>
        defaultValues \<noteq> [] \<and>
        Join defaultValues [rune_semicolon] = tl (dropWhile (\<lambda>c. c \<noteq> rune_eq) ?body) \<and>
        list_all (\<lambda>d. rune_semicolon \<notin> set d) defaultValues)"
    by blast
qed

theorem extractParamNameAndDefaults_splits_witness:
  "Join [runes ''a'', runes '' b''] [rune_semicolon] = runes ''a; b'' \<and>
   TrimSpace (takeWhile (\<lambda>c. c \<noteq> rune_eq) (TrimSpace (slice (runes ''<name=a; b>'') (Suc 0) 10))) =
     runes ''name''"
  using extractParamNameAndDefaults_splits
    [of "runes ''<name=a; b>''" "Suc 0" 10 "runes ''name''" "[runes ''a'', runes '' b'']"]
    extract_defaults
  by (simp add: eval_defs)

section \<open>C4: missing values\<close>

text \<open>
  C4.  For a segment sequence whose slot indices are a set of indices into its segments
  and for every value mapping: if the name at some slot has no value in the mapping,
  Reconstruct returns the empty string and a MissingValue error that names a slot's name
  without a value, the one at the first such slot of ParamIndices, and no substituted text;
  and if the name at every slot has a value, Reconstruct returns no error and the
  segments joined with each slot's value in place of its name.
\<close>

theorem Reconstruct_missing_value:
  assumes "slots_valid ss"
  shows "((\<exists>i\<in>set (ParamIndices ss). paramValues (Segments ss ! nat i) = None) \<longrightarrow>
            (\<exists>i\<in>set (ParamIndices ss). paramValues (Segments ss ! nat i) = None \<and>
               find (\<lambda>i. paramValues (Segments ss ! nat i) = None) (ParamIndices ss) = Some i \<and>
               Reconstruct ss paramValues =
                 Returns ([], Some (MissingValue (Segments ss ! nat i))))) \<and>
         ((\<forall>i\<in>set (ParamIndices ss). paramValues (Segments ss ! nat i) \<noteq> None) \<longrightarrow>
            Reconstruct ss paramValues =
              Returns (Join (substituted paramValues (ParamIndices ss) (Segments ss)) [], None))"
proof -
  let ?absent = "\<lambda>i. paramValues (Segments ss ! nat i) = None"
  from assms have spec: "Reconstruct ss paramValues =
    (case find ?absent (ParamIndices ss) of
       Some i \<Rightarrow> Returns ([], Some (MissingValue (Segments ss ! nat i)))
     | None \<Rightarrow> Returns (Join (substituted paramValues (ParamIndices ss) (Segments ss)) [], None))"
    unfolding slots_valid_def Reconstruct_def by (intro Reconstruct_loop_spec) simp_all
  show ?thesis
  proof (cases "find ?absent (ParamIndices ss)")
    case None
    then have "\<forall>i\<in>set (ParamIndices ss). \<not> ?absent i"
      by (simp add: find_None_iff)
    with None spec show ?thesis by simp
  next
    case (Some i)
    then have "i \<in> set (ParamIndices ss)" "?absent i"
      by (auto simp: find_Some_iff)
    with Some spec show ?thesis by auto
  qed
qed

theorem Reconstruct_missing_value_witness:
  "Reconstruct
     \<lparr>Segments = [runes ''mv '', runes ''oldname'', runes '' '', runes ''newname''],
      ParamIndices = [1, 3],
      Params = [\<lparr>Name = runes ''oldname'', DefaultValues = [runes ''file1.txt'']\<rparr>,
                \<lparr>Name = runes ''newname'', DefaultValues = [runes ''file2.txt'']\<rparr>]\<rparr>
     [runes ''oldname'' \<mapsto> runes ''document.txt''] =
   Returns ([], Some (MissingValue (runes ''newname''))) \<and>
   Reconstruct
     \<lparr>Segments = [runes ''echo '', runes ''name''], ParamIndices = [1],
      Params = [\<lparr>Name = runes ''name'', DefaultValues = [runes ''World'']\<rparr>]\<rparr>
     [runes ''name'' \<mapsto> runes ''Alice''] =
   Returns (runes ''echo Alice'', None)"
proof -
  let ?ss1 = "\<lparr>Segments = [runes ''mv '', runes ''oldname'', runes '' '', runes ''newname''],
      ParamIndices = [1, 3],
      Params = [\<lparr>Name = runes ''oldname'', DefaultValues = [runes ''file1.txt'']\<rparr>,
                \<lparr>Name = runes ''newname'', DefaultValues = [runes ''file2.txt'']\<rparr>]\<rparr>"
  let ?ss2 = "\<lparr>Segments = [runes ''echo '', runes ''name''], ParamIndices = [1],
      Params = [\<lparr>Name = runes ''name'', DefaultValues = [runes ''World'']\<rparr>]\<rparr>"
  have v1: "slots_valid ?ss1" and v2: "slots_valid ?ss2"
    by (simp_all add: slots_valid_def)
  have "Reconstruct ?ss1 [runes ''oldname'' \<mapsto> runes ''document.txt''] =
      Returns ([], Some (MissingValue (runes ''newname'')))"
    using Reconstruct_missing_value [OF v1, of "[runes ''oldname'' \<mapsto> runes ''document.txt'']"]
    by (simp add: runes_def)
  moreover have "Reconstruct ?ss2 [runes ''name'' \<mapsto> runes ''Alice''] =
      Returns (runes ''echo Alice'', None)"
    using Reconstruct_missing_value [OF v2, of "[runes ''name'' \<mapsto> runes ''Alice'']"]
    by (simp add: runes_def substituted_def)
  ultimately show ?thesis by simp
qed

section \<open>C5: a spell without a marker\<close>

text \<open>
  C5, as the spec has it, fails.  In \<^verbatim>\<open>sort <in >>out\<close> no marker of the specification
  begins anywhere: the one body that stands between a \<^verbatim>\<open><\<close> and the next \<^verbatim>\<open>>\<close> is
  \<^verbatim>\<open>in \<close>, which ends with whitespace.  Yet the pattern matches \<^verbatim>\<open><in >>\<close>, and ParseSpell
  gives three segments, one slot and the parameter \<^verbatim>\<open>in >\<close> instead of the one segment.
\<close>

theorem ParseSpell_no_marker_identity_counterexample:
  "spec_marker_count (runes ''sort <in >>out'') = 0 \<and>
   ParseSpell (runes ''sort <in >>out'') =
     Inr \<lparr>Segments = [runes ''sort '', runes ''in >'', runes ''out''],
          ParamIndices = [1],
          Params = [\<lparr>Name = runes ''in >'', DefaultValues = []\<rparr>]\<rparr>"
  using spec_marker_count_redirect ParseSpell_redirect by simp

text \<open>
  C5, amended.  For every string \<open>s\<close> that has no part \<^verbatim>\<open><\<close> body \<^verbatim>\<open>>\<close> with a body of two or
  more runes whose first and last rune are not in \<^verbatim>\<open>\s\<close> and whose runes in between are
  not \<^verbatim>\<open><\<close> or \<^verbatim>\<open>>\<close>, ParseSpell succeeds with the one segment \<open>s\<close>, no parameters and no
  slot indices, and Reconstruct of that result returns \<open>s\<close> and no error, whatever the
  mapping.  For every string that has such a part, ParseSpell does not give that result.
\<close>

theorem ParseSpell_no_match_identity:
  "(\<not> has_match s \<longrightarrow>
      ParseSpell s = Inr \<lparr>Segments = [s], ParamIndices = [], Params = []\<rparr> \<and>
      (\<forall>paramValues.
         Reconstruct \<lparr>Segments = [s], ParamIndices = [], Params = []\<rparr> paramValues =
           Returns (s, None))) \<and>
   (has_match s \<longrightarrow>
      ParseSpell s \<noteq> Inr \<lparr>Segments = [s], ParamIndices = [], Params = []\<rparr>)"
proof (intro conjI impI)
  assume "\<not> has_match s"
  then have "FindAllStringSubmatchIndex s = []"
    by (simp add: no_match_iff)
  then show "ParseSpell s = Inr \<lparr>Segments = [s], ParamIndices = [], Params = []\<rparr>"
    by (simp add: ParseSpell_def)
next
  show "\<forall>paramValues.
         Reconstruct \<lparr>Segments = [s], ParamIndices = [], Params = []\<rparr> paramValues =
           Returns (s, None)"
    by (simp add: Reconstruct_def)
next
  assume "has_match s"
  then have ne: "FindAllStringSubmatchIndex s \<noteq> []"
    by (simp add: no_match_iff)
  show "ParseSpell s \<noteq> Inr \<lparr>Segments = [s], ParamIndices = [], Params = []\<rparr>"
  proof
    assume "ParseSpell s = Inr \<lparr>Segments = [s], ParamIndices = [], Params = []\<rparr>"
    from ParseSpell_Inr_facts(1) [OF this] ne show False by simp
  qed
qed

theorem ParseSpell_no_match_identity_witness:
  "ParseSpell (runes ''echo Hello World'') =
     Inr \<lparr>Segments = [runes ''echo Hello World''], ParamIndices = [], Params = []\<rparr> \<and>
   Reconstruct \<lparr>Segments = [runes ''echo Hello World''], ParamIndices = [], Params = []\<rparr>
     [runes ''name'' \<mapsto> runes ''Alice''] =
     Returns (runes ''echo Hello World'', None) \<and>
   ParseSpell (runes ''sort <in >>out'') \<noteq>
     Inr \<lparr>Segments = [runes ''sort <in >>out''], ParamIndices = [], Params = []\<rparr>"
proof -
  have "\<not> has_match (runes ''echo Hello World'')"
    using find_all_hello by (simp add: no_match_iff)
  moreover have "has_match (runes ''sort <in >>out'')"
    using find_all_redirect no_match_iff [of "runes ''sort <in >>out''"] by simp
  ultimately show ?thesis
    using ParseSpell_no_match_identity [of "runes ''echo Hello World''"]
      ParseSpell_no_match_identity [of "runes ''sort <in >>out''"]
    by blast
qed

section \<open>C6: the segments joined\<close>

text \<open>
  C6.  When ParseSpell succeeds, the segments joined with no separator are the spell
  with every marker that was recognized replaced by the bare name: the spell has one
  reading as a sequence of pieces, and the segments joined are the pieces in order, each
  rune of literal text as it is and each marker as the name its body declares, which is
  the body in front of its first \<^verbatim>\<open>=\<close> without the whitespace around it.  So the
  delimiters and the text of the default values are gone: \<^verbatim>\<open>echo <name=World> and again <name>\<close>
  gives \<^verbatim>\<open>echo name and again name\<close>.
\<close>

theorem ParseSpell_segments_unsubstituted:
  assumes "ParseSpell spell = Inr ss"
  shows "(\<exists>ps. pieces spell ps) \<and>
         (\<forall>ps. pieces spell ps \<longrightarrow> Join (Segments ss) [] = concat (map unsubstituted ps))"
proof (intro conjI allI impI)
  show "\<exists>ps. pieces spell ps"
    using pieces_scan_pieces by blast
next
  fix ps
  assume "pieces spell ps"
  then have "ps = scan_pieces spell" by (rule pieces_unique)
  then show "Join (Segments ss) [] = concat (map unsubstituted ps)"
    unfolding Join_no_separator using ParseSpell_concat [OF assms] by simp
qed

theorem ParseSpell_segments_unsubstituted_witness:
  "pieces (runes ''echo <name=World> and again <name>'')
     (map Literal (runes ''echo '') @ [Marker (runes ''name=World'')] @
      map Literal (runes '' and again '') @ [Marker (runes ''name'')]) \<and>
   ParseSpell (runes ''echo <name=World> and again <name>'') =
     Inr \<lparr>Segments = [runes ''echo '', runes ''name'', runes '' and again '', runes ''name''],
          ParamIndices = [1, 3],
          Params = [\<lparr>Name = runes ''name'', DefaultValues = [runes ''World'']\<rparr>]\<rparr> \<and>
   Join [runes ''echo '', runes ''name'', runes '' and again '', runes ''name''] [] =
     concat (map unsubstituted
       (map Literal (runes ''echo '') @ [Marker (runes ''name=World'')] @
        map Literal (runes '' and again '') @ [Marker (runes ''name'')])) \<and>
   concat (map unsubstituted
       (map Literal (runes ''echo '') @ [Marker (runes ''name=World'')] @
        map Literal (runes '' and again '') @ [Marker (runes ''name'')])) =
     runes ''echo name and again name''"
proof -
  let ?spell = "runes ''echo <name=World> and again <name>''"
  let ?ps = "map Literal (runes ''echo '') @ [Marker (runes ''name=World'')] @
             map Literal (runes '' and again '') @ [Marker (runes ''name'')]"
  have ps: "pieces ?spell ?ps"
    using pieces_scan_pieces [of ?spell] unfolding scan_pieces_default_first_only .
  from ParseSpell_segments_unsubstituted [OF ParseSpell_test_default_first_only] ps
  have "Join [runes ''echo '', runes ''name'', runes '' and again '', runes ''name''] [] =
        concat (map unsubstituted ?ps)"
    by simp
  moreover have "concat (map unsubstituted ?ps) = runes ''echo name and again name''"
    by (simp add: declared_name_World declared_name_name) (simp add: runes_def)
  ultimately show ?thesis
    using ps ParseSpell_test_default_first_only by simp
qed

section \<open>C7: occurrences and parameters\<close>

text \<open>
  C7, as the spec has it, fails on the number of marker occurrences: \<^verbatim>\<open><a> <a>\<close> has two
  markers of the specification, and ParseSpell succeeds on it with no slot index at all,
  since the pattern asks for two runes in a body.
\<close>

theorem ParseSpell_slots_and_params_counterexample:
  "spec_marker_count (runes ''<a> <a>'') = 2 \<and>
   ParseSpell (runes ''<a> <a>'') =
     Inr \<lparr>Segments = [runes ''<a> <a>''], ParamIndices = [], Params = []\<rparr>"
  using spec_marker_count_two_single_runes ParseSpell_two_single_runes by simp

text \<open>
  C7, amended.  When ParseSpell succeeds, the spell has one reading as a sequence of
  pieces, and with the marker occurrences of that reading (the parts that the pattern
  matches, from left to right, without overlap): ParamIndices has one entry for each
  occurrence, repeats counted one by one, and the segment at the k-th slot is the name
  that the body of the k-th occurrence declares; Params has each distinct name once, in
  the order of first appearance, each with the default values that the first marker of
  that name declares.  The spell \<^verbatim>\<open>echo <name> and again <name>\<close> gives one parameter and
  two slots, and Reconstruct with \<^verbatim>\<open>{name: "X"}\<close> puts \<^verbatim>\<open>X\<close> at both;
  \<^verbatim>\<open>echo <name=World> and again <name>\<close> gives the one parameter \<^verbatim>\<open>name\<close> with the default
  value \<^verbatim>\<open>World\<close>.
\<close>

theorem ParseSpell_slots_and_params:
  "(ParseSpell spell = Inr ss \<longrightarrow>
      (\<exists>ps. pieces spell ps) \<and>
      (\<forall>ps. pieces spell ps \<longrightarrow>
         length (ParamIndices ss) = length (marker_bodies ps) \<and>
         map (\<lambda>i. Segments ss ! nat i) (ParamIndices ss) = map declared_name (marker_bodies ps) \<and>
         map Name (Params ss) = first_occurrences (map declared_name (marker_bodies ps)) \<and>
         distinct (map Name (Params ss)) \<and>
         list_all (\<lambda>p. map_of (map (\<lambda>body. (declared_name body, declared_defaults body))
                                  (marker_bodies ps)) (Name p) =
                        Some (DefaultValues p)) (Params ss))) \<and>
   (\<exists>ss. ParseSpell (runes ''echo <name> and again <name>'') = Inr ss \<and>
      length (Params ss) = 1 \<and> length (ParamIndices ss) = 2 \<and>
      Reconstruct ss [runes ''name'' \<mapsto> runes ''X''] =
        Returns (runes ''echo X and again X'', None)) \<and>
   ParseSpell (runes ''echo <name=World> and again <name>'') =
     Inr \<lparr>Segments = [runes ''echo '', runes ''name'', runes '' and again '', runes ''name''],
          ParamIndices = [1, 3],
          Params = [\<lparr>Name = runes ''name'', DefaultValues = [runes ''World'']\<rparr>]\<rparr>"
proof -
  have general: "length (ParamIndices ss) = length (marker_bodies ps) \<and>
         map (\<lambda>i. Segments ss ! nat i) (ParamIndices ss) = map declared_name (marker_bodies ps) \<and>
         map Name (Params ss) = first_occurrences (map declared_name (marker_bodies ps)) \<and>
         distinct (map Name (Params ss)) \<and>
         list_all (\<lambda>p. map_of (map (\<lambda>body. (declared_name body, declared_defaults body))
                                  (marker_bodies ps)) (Name p) =
                        Some (DefaultValues p)) (Params ss)"
    if ok: "ParseSpell spell = Inr ss" and ps: "pieces spell ps" for ps
  proof -
    let ?decls = "map (\<lambda>body. (declared_name body, declared_defaults body)) (marker_bodies ps)"
    from ps have "ps = scan_pieces spell" by (rule pieces_unique)
    then have decls: "marker_decls spell (FindAllStringSubmatchIndex spell) = ?decls"
      by (simp add: marker_decls_declared)
    have fst: "map fst ?decls = map declared_name (marker_bodies ps)"
      by (simp add: comp_def)
    have "length (FindAllStringSubmatchIndex spell) = length (marker_bodies ps)"
      using arg_cong [OF decls, of length] by (simp add: marker_decls_def)
    moreover note ParseSpell_Inr_facts(1-4) [OF ok, unfolded decls fst]
    moreover have "distinct (first_occurrences (map declared_name (marker_bodies ps)))"
      by (rule first_occurrences_distinct)
    ultimately show ?thesis by simp
  qed
  have "\<exists>ss. ParseSpell (runes ''echo <name> and again <name>'') = Inr ss \<and>
      length (Params ss) = 1 \<and> length (ParamIndices ss) = 2 \<and>
      Reconstruct ss [runes ''name'' \<mapsto> runes ''X''] =
        Returns (runes ''echo X and again X'', None)"
    unfolding ParseSpell_repeat using Reconstruct_repeat by simp
  with general pieces_scan_pieces ParseSpell_test_default_first_only show ?thesis
    by blast
qed

theorem ParseSpell_slots_and_params_witness:
  "pieces (runes ''echo <name=World> and again <name>'')
     (map Literal (runes ''echo '') @ [Marker (runes ''name=World'')] @
      map Literal (runes '' and again '') @ [Marker (runes ''name'')]) \<and>
   length [1, 3 :: int] = length [runes ''name=World'', runes ''name''] \<and>
   map declared_name [runes ''name=World'', runes ''name''] = [runes ''name'', runes ''name''] \<and>
   first_occurrences (map declared_name [runes ''name=World'', runes ''name'']) = [runes ''name''] \<and>
   map_of (map (\<lambda>body. (declared_name body, declared_defaults body))
             [runes ''name=World'', runes ''name'']) (runes ''name'') =
     Some [runes ''World'']"
proof -
  let ?spell = "runes ''echo <name=World> and again <name>''"
  let ?ps = "map Literal (runes ''echo '') @ [Marker (runes ''name=World'')] @
             map Literal (runes '' and again '') @ [Marker (runes ''name'')]"
  let ?ss = "\<lparr>Segments = [runes ''echo '', runes ''name'', runes '' and again '', runes ''name''],
          ParamIndices = [1, 3],
          Params = [\<lparr>Name = runes ''name'', DefaultValues = [runes ''World'']\<rparr>]\<rparr>"
  have ps: "pieces ?spell ?ps"
    using pieces_scan_pieces [of ?spell] unfolding scan_pieces_default_first_only .
  have bodies: "marker_bodies ?ps = [runes ''name=World'', runes ''name'']"
    by (simp add: runes_def)
  from ParseSpell_slots_and_params [of ?spell ?ss] ParseSpell_test_default_first_only ps
  have "length (ParamIndices ?ss) = length (marker_bodies ?ps) \<and>
        map (\<lambda>i. Segments ?ss ! nat i) (ParamIndices ?ss) = map declared_name (marker_bodies ?ps) \<and>
        map Name (Params ?ss) = first_occurrences (map declared_name (marker_bodies ?ps)) \<and>
        list_all (\<lambda>p. map_of (map (\<lambda>body. (declared_name body, declared_defaults body))
                                  (marker_bodies ?ps)) (Name p) =
                        Some (DefaultValues p)) (Params ?ss)"
    by blast
  then show ?thesis
    unfolding bodies using ps
    by (simp add: declared_name_World declared_name_name declared_defaults_World)
qed

section \<open>C8: the slot indices are valid\<close>

text \<open>
  C8.  When ParseSpell succeeds, every element of ParamIndices is at least 0 and less
  than the number of segments, the indices are strictly increasing, and the segment at
  each of them is the Name of an element of Params; so Reconstruct, with any mapping,
  indexes in bounds and does not panic.
\<close>

theorem ParseSpell_indices_in_bounds:
  assumes "ParseSpell spell = Inr ss"
  shows "list_all (\<lambda>i. 0 \<le> i \<and> i < int (length (Segments ss)) \<and>
                        Segments ss ! nat i \<in> Name ` set (Params ss)) (ParamIndices ss) \<and>
         sorted_wrt (<) (ParamIndices ss) \<and>
         (\<forall>paramValues. Reconstruct ss paramValues \<noteq> Panics)"
proof -
  let ?decls = "marker_decls spell (FindAllStringSubmatchIndex spell)"
  note facts = ParseSpell_Inr_facts [OF assms]
  have "Segments ss ! nat i \<in> Name ` set (Params ss)" if "i \<in> set (ParamIndices ss)" for i
  proof -
    from that have "Segments ss ! nat i \<in> set (map (\<lambda>i. Segments ss ! nat i) (ParamIndices ss))"
      by simp
    then have "Segments ss ! nat i \<in> set (first_occurrences (map fst ?decls))"
      unfolding facts(4) first_occurrences_set .
    then show ?thesis
      unfolding facts(2) [symmetric] by simp
  qed
  then have names: "list_all (\<lambda>i. 0 \<le> i \<and> i < int (length (Segments ss)) \<and>
                        Segments ss ! nat i \<in> Name ` set (Params ss)) (ParamIndices ss)"
    using facts(6) by (auto simp: list_all_iff)
  have "Reconstruct ss paramValues \<noteq> Panics" for paramValues
  proof -
    from ParseSpell_slots_valid [OF assms]
    have "distinct (ParamIndices ss)"
      "list_all (\<lambda>i. 0 \<le> i \<and> i < int (length (Segments ss))) (ParamIndices ss)"
      by (simp_all add: slots_valid_def)
    from Reconstruct_loop_spec [OF this, of paramValues] show ?thesis
      by (simp add: Reconstruct_def split: option.splits)
  qed
  with names facts(5) show ?thesis by simp
qed

theorem ParseSpell_indices_in_bounds_witness:
  "sorted_wrt (<) [1, 3 :: int] \<and>
   Reconstruct
     \<lparr>Segments = [runes ''echo '', runes ''name'', runes '' and again '', runes ''name''],
      ParamIndices = [1, 3],
      Params = [\<lparr>Name = runes ''name'', DefaultValues = []\<rparr>]\<rparr> Map.empty \<noteq> Panics"
  using ParseSpell_indices_in_bounds [OF ParseSpell_repeat] by simp

section \<open>C9: what Reconstruct changes\<close>

text \<open>
  C9.  A call of Reconstruct on a struct in the store, with any mapping, leaves the
  struct as it was and every array that existed before the call as it was, so the
  Segments, ParamIndices and Params read after the call are those read before it,
  whether the call returns a string, returns an error or panics; its outcome is the one
  of \<open>Reconstruct\<close> on the values read, and any number of calls, one after the other
  with the same mapping, all have that outcome.
\<close>

theorem Reconstruct_does_not_mutate:
  assumes "Segments_addr ss < length mem"
  shows "(Reconstruct_stored mem ss paramValues = (mem', ss', out) \<longrightarrow>
            ss' = ss \<and> take (length mem) mem' = mem \<and> load mem' ss' = load mem ss \<and>
            out = Reconstruct (load mem ss) paramValues) \<and>
         Reconstruct_repeatedly n mem ss paramValues =
           replicate n (Reconstruct (load mem ss) paramValues)"
proof -
  have "ss' = ss \<and> take (length mem) mem' = mem \<and> load mem' ss' = load mem ss \<and>
      out = Reconstruct (load mem ss) paramValues"
    if call: "Reconstruct_stored mem ss paramValues = (mem', ss', out)"
  proof -
    from Reconstruct_stored_spec [OF assms call]
    have ss: "ss' = ss" and len: "length mem' = Suc (length mem)"
      and same: "\<forall>a < length mem. mem' ! a = mem ! a"
      and out: "out = Reconstruct (load mem ss) paramValues"
      by blast+
    have frame: "take (length mem) mem' = mem"
      using len same by (auto intro: nth_equalityI)
    have "load mem' ss' = load mem ss"
      using ss same assms by (simp add: load_def)
    with ss frame out show ?thesis by simp
  qed
  with Reconstruct_repeatedly_same [OF assms] show ?thesis by blast
qed

theorem Reconstruct_does_not_mutate_witness:
  "load [[runes ''echo '', runes ''name''], [runes ''echo '', runes ''Alice'']]
     \<lparr>Segments_addr = 0, ParamIndices_stored = [1], Params_stored = []\<rparr> =
   \<lparr>Segments = [runes ''echo '', runes ''name''], ParamIndices = [1], Params = []\<rparr> \<and>
   Reconstruct_repeatedly 3 [[runes ''echo '', runes ''name'']]
     \<lparr>Segments_addr = 0, ParamIndices_stored = [1], Params_stored = []\<rparr>
     [runes ''name'' \<mapsto> runes ''Alice''] =
   [Returns (runes ''echo Alice'', None), Returns (runes ''echo Alice'', None),
    Returns (runes ''echo Alice'', None)]"
proof -
  let ?ss = "\<lparr>Segments_addr = 0, ParamIndices_stored = [1], Params_stored = []\<rparr>"
  let ?mem = "[[runes ''echo '', runes ''name'']]"
  let ?mem' = "[[runes ''echo '', runes ''name''], [runes ''echo '', runes ''Alice'']]"
  let ?pv = "[runes ''name'' \<mapsto> runes ''Alice'']"
  have valid: "Segments_addr ?ss < length ?mem"
    by simp
  have outc: "Reconstruct (load ?mem ?ss) ?pv = Returns (runes ''echo Alice'', None)"
    by (simp add: load_def Reconstruct_def runes_def)
  from Reconstruct_does_not_mutate
    [OF valid, of ?pv ?mem' ?ss "Returns (runes ''echo Alice'', None)" 3]
    Reconstruct_stored_example
  have "load ?mem' ?ss = load ?mem ?ss"
    and "Reconstruct_repeatedly 3 ?mem ?ss ?pv = replicate 3 (Reconstruct (load ?mem ?ss) ?pv)"
    by blast+
  then show ?thesis
    unfolding outc by (simp add: load_def numeral_3_eq_3)
qed

section \<open>C10: only the values of the names at the slots matter\<close>

text \<open>
  C10.  For a segment sequence in which no slot index comes twice: two mappings that give
  the same value, or both none, to the name at every slot make Reconstruct return the
  same outcome, string or error; so an entry of the mapping whose key is the name at no
  slot changes nothing.
\<close>

theorem Reconstruct_depends_on_slot_names_only:
  assumes "distinct (ParamIndices ss)"
  shows "((\<forall>i\<in>set (ParamIndices ss). 0 \<le> i \<and> i < int (length (Segments ss)) \<longrightarrow>
             pv1 (Segments ss ! nat i) = pv2 (Segments ss ! nat i)) \<longrightarrow>
          Reconstruct ss pv1 = Reconstruct ss pv2) \<and>
         ((\<forall>i\<in>set (ParamIndices ss). 0 \<le> i \<and> i < int (length (Segments ss)) \<longrightarrow>
             Segments ss ! nat i \<noteq> key) \<longrightarrow>
          Reconstruct ss (pv1(key := entry)) = Reconstruct ss pv1)"
proof -
  have agree: "Reconstruct ss p = Reconstruct ss q"
    if "\<forall>i\<in>set (ParamIndices ss). 0 \<le> i \<and> i < int (length (Segments ss)) \<longrightarrow>
             p (Segments ss ! nat i) = q (Segments ss ! nat i)" for p q
    unfolding Reconstruct_def using assms that by (intro Reconstruct_loop_agree) auto
  have "Reconstruct ss (pv1(key := entry)) = Reconstruct ss pv1"
    if "\<forall>i\<in>set (ParamIndices ss). 0 \<le> i \<and> i < int (length (Segments ss)) \<longrightarrow>
             Segments ss ! nat i \<noteq> key"
    using that by (intro agree) auto
  with agree [of pv1 pv2] show ?thesis by blast
qed

theorem Reconstruct_depends_on_slot_names_only_witness:
  "Reconstruct
     \<lparr>Segments = [runes ''echo '', runes ''name''], ParamIndices = [1], Params = []\<rparr>
     [runes ''name'' \<mapsto> runes ''Alice'', runes ''other'' \<mapsto> runes ''Bob''] =
   Reconstruct
     \<lparr>Segments = [runes ''echo '', runes ''name''], ParamIndices = [1], Params = []\<rparr>
     [runes ''name'' \<mapsto> runes ''Alice'']"
proof -
  let ?ss = "\<lparr>Segments = [runes ''echo '', runes ''name''], ParamIndices = [1], Params = []\<rparr>"
  have d: "distinct (ParamIndices ?ss)" by simp
  have n: "runes ''name'' \<noteq> runes ''other''" by (simp add: runes_def)
  show ?thesis
    using Reconstruct_depends_on_slot_names_only [OF d,
        of "[runes ''name'' \<mapsto> runes ''Alice'']" "[runes ''name'' \<mapsto> runes ''Alice'']"
           "runes ''other''" "Some (runes ''Bob'')"] n
    by simp
qed

end
